theory Spec2Isabelle
  imports Main "HOL-Library.Sublist" "HOL-Library.AList"
begin

section \<open>Paths\<close>

text \<open>
  The script runs on absolute POSIX paths. A path value is kept as the list of its
  segments, which is what \<open>path.join\<close> and \<open>path.resolve\<close> return once the
  result is normalised; \<open>path_str\<close> gives back the string the script sees (and on
  which the safety guard does its substring test). \<open>process.cwd()\<close> is already
  normalised, so a base path is never re-normalised.
\<close>

type_synonym path = "string list"

fun split_sep :: "string \<Rightarrow> string list" where
  "split_sep [] = [[]]"
| "split_sep (c # cs) =
     (if c = CHR ''/'' then [] # split_sep cs
      else (case split_sep cs of [] \<Rightarrow> [[c]] | w # ws \<Rightarrow> (c # w) # ws))"

fun normalize_onto :: "path \<Rightarrow> string list \<Rightarrow> path" where
  "normalize_onto base [] = base"
| "normalize_onto base (s # ss) =
     (if s = [] \<or> s = ''.'' then normalize_onto base ss
      else if s = ''..'' then normalize_onto (butlast base) ss
      else normalize_onto (base @ [s]) ss)"

definition path_join :: "path \<Rightarrow> string list \<Rightarrow> path" where
  "path_join base parts = normalize_onto base (concat (map split_sep parts))"

definition path_resolve :: "path \<Rightarrow> string \<Rightarrow> path" where
  "path_resolve base part =
     (if part \<noteq> [] \<and> hd part = CHR ''/'' then normalize_onto [] (split_sep part)
      else normalize_onto base (split_sep part))"

definition path_str :: "path \<Rightarrow> string" where
  "path_str p = (if p = [] then ''/'' else concat (map (\<lambda>s. CHR ''/'' # s) p))"

definition startsWith :: "string \<Rightarrow> string \<Rightarrow> bool" where
  "startsWith s t = prefix t s"

definition str_includes :: "string \<Rightarrow> string \<Rightarrow> bool" where
  "str_includes s t = sublist t s"

section \<open>The file system\<close>

text \<open>
  A JSON document read by \<open>fs.readJsonSync\<close> is kept parsed: the script reads
  \<open>version\<close> (a string, or absent), \<open>keywords\<close> (a list of strings, or absent) and
  the keys of \<open>dependencies\<close> in the order \<open>Object.keys\<close> enumerates them (or absent).
  Any other file content is \<open>Text\<close>; reading it as JSON throws.
\<close>

record config =
  cfg_version :: "string option"
  cfg_keywords :: "string list option"
  cfg_dependencies :: "string list option"

datatype content = Json config | Text string

datatype node = File content | Dir "(string \<times> node) list"

datatype error = UnexpectedPath string | IOError

fun node_at :: "node \<Rightarrow> path \<Rightarrow> node option" where
  "node_at n [] = Some n"
| "node_at (File c) (s # p) = None"
| "node_at (Dir kids) (s # p) = (case map_of kids s of None \<Rightarrow> None | Some c \<Rightarrow> node_at c p)"

fun is_dir :: "node \<Rightarrow> bool" where
  "is_dir (Dir kids) = True"
| "is_dir (File c) = False"

text \<open>Names a real directory can hold: not empty, no separator, neither dot entry.\<close>

definition plain :: "string \<Rightarrow> bool" where
  "plain s = (s \<noteq> [] \<and> CHR ''/'' \<notin> set s \<and> s \<noteq> ''.'' \<and> s \<noteq> ''..'')"

fun wf :: "node \<Rightarrow> bool" where
  "wf (File c) = True"
| "wf (Dir kids) = (distinct (map fst kids) \<and> (\<forall>x \<in> set kids. plain (fst x) \<and> wf (snd x)))"

text \<open>
  \<open>modify_at p f\<close> rewrites the node at \<open>p\<close> with \<open>f\<close>, creating the missing
  directories on the way (\<open>mkdirsSync\<close>) and failing when the way leads through a file.
\<close>

fun modify_at :: "path \<Rightarrow> (node option \<Rightarrow> error + node) \<Rightarrow> node option \<Rightarrow> error + node" where
  "modify_at [] f cur = f cur"
| "modify_at (s # p) f None =
     (case modify_at p f None of Inl e \<Rightarrow> Inl e | Inr c \<Rightarrow> Inr (Dir [(s, c)]))"
| "modify_at (s # p) f (Some (File c)) = Inl IOError"
| "modify_at (s # p) f (Some (Dir kids)) =
     (case modify_at p f (map_of kids s) of
        Inl e \<Rightarrow> Inl e
      | Inr c \<Rightarrow> Inr (Dir (AList.update s c kids)))"

fun remove_at :: "path \<Rightarrow> node \<Rightarrow> error + node" where
  "remove_at [] n = Inl IOError"
| "remove_at (s # p) (File c) = Inl IOError"
| "remove_at [s] (Dir kids) = Inr (Dir (AList.delete s kids))"
| "remove_at (s # q # p) (Dir kids) =
     (case map_of kids s of
        None \<Rightarrow> Inr (Dir kids)
      | Some c \<Rightarrow>
          (case remove_at (q # p) c of
             Inl e \<Rightarrow> Inl e
           | Inr c' \<Rightarrow> Inr (Dir (AList.update s c' kids))))"

text \<open>
  Recursive copy as \<open>fs.copySync\<close> does it with its default options: a file replaces
  a file, a directory is merged into a directory entry by entry, and a file and a
  directory never replace each other.
\<close>

fun merge_node :: "node \<Rightarrow> node option \<Rightarrow> error + node"
  and merge_kids :: "(string \<times> node) list \<Rightarrow> (string \<times> node) list \<Rightarrow> error + (string \<times> node) list" where
  "merge_node (File c) None = Inr (File c)"
| "merge_node (File c) (Some (File d)) = Inr (File c)"
| "merge_node (File c) (Some (Dir ds)) = Inl IOError"
| "merge_node (Dir ks) None = (case merge_kids ks [] of Inl e \<Rightarrow> Inl e | Inr r \<Rightarrow> Inr (Dir r))"
| "merge_node (Dir ks) (Some (File d)) = Inl IOError"
| "merge_node (Dir ks) (Some (Dir ds)) = (case merge_kids ks ds of Inl e \<Rightarrow> Inl e | Inr r \<Rightarrow> Inr (Dir r))"
| "merge_kids [] ds = Inr ds"
| "merge_kids (kc # ks) ds =
     (case merge_node (snd kc) (map_of ds (fst kc)) of
        Inl e \<Rightarrow> Inl e
      | Inr c' \<Rightarrow> merge_kids ks (AList.update (fst kc) c' ds))"

section \<open>Calls of the script on the file system\<close>

text \<open>
  The state of a run is the file tree together with the list of the calls made so far
  on destination paths: the guard, every delete, every copy and the emptiness test.
  A call is entered in the list before it acts. A run that throws ends with the error
  and the calls made up to it.
\<close>

datatype event =
    Validate path
  | EmptyDir path
  | Copy path path
  | Remove path
  | Unlink path
  | IsEmpty path

record state =
  tree :: node
  trace :: "event list"

type_synonym outcome = "(error \<times> event list) + state"

definition call :: "event \<Rightarrow> (node \<Rightarrow> error + node) \<Rightarrow> state \<Rightarrow> outcome" where
  "call ev f s =
     (case f (tree s) of
        Inl e \<Rightarrow> Inl (e, trace s @ [ev])
      | Inr t \<Rightarrow> Inr \<lparr>tree = t, trace = trace s @ [ev]\<rparr>)"

definition existsSync :: "node \<Rightarrow> path \<Rightarrow> bool" where
  "existsSync t p = (node_at t p \<noteq> None)"

definition readJsonSync :: "node \<Rightarrow> path \<Rightarrow> error + config" where
  "readJsonSync t p =
     (case node_at t p of Some (File (Json c)) \<Rightarrow> Inr c | _ \<Rightarrow> Inl IOError)"

definition readdirSync :: "node \<Rightarrow> path \<Rightarrow> error + string list" where
  "readdirSync t p =
     (case node_at t p of Some (Dir kids) \<Rightarrow> Inr (map fst kids) | _ \<Rightarrow> Inl IOError)"

definition statSync :: "node \<Rightarrow> path \<Rightarrow> error + node" where
  "statSync t p = (case node_at t p of None \<Rightarrow> Inl IOError | Some n \<Rightarrow> Inr n)"

fun empty_or_make :: "node option \<Rightarrow> error + node" where
  "empty_or_make None = Inr (Dir [])"
| "empty_or_make (Some (Dir kids)) = Inr (Dir [])"
| "empty_or_make (Some (File c)) = Inl IOError"

definition emptyDirSync :: "path \<Rightarrow> state \<Rightarrow> outcome" where
  "emptyDirSync p = call (EmptyDir p) (\<lambda>t. modify_at p empty_or_make (Some t))"

text \<open>
  A copy whose source and target lie inside one another is refused; the script reaches
  it only through dependency names that climb out of their directory.
\<close>

definition copy_tree :: "path \<Rightarrow> path \<Rightarrow> node \<Rightarrow> error + node" where
  "copy_tree src dst t =
     (case node_at t src of
        None \<Rightarrow> Inl IOError
      | Some n \<Rightarrow>
          if prefix src dst \<or> prefix dst src then Inl IOError
          else modify_at dst (merge_node n) (Some t))"

definition copySync :: "path \<Rightarrow> path \<Rightarrow> state \<Rightarrow> outcome" where
  "copySync src dst = call (Copy src dst) (copy_tree src dst)"

definition removeSync :: "path \<Rightarrow> state \<Rightarrow> outcome" where
  "removeSync p = call (Remove p) (remove_at p)"

definition unlink_file :: "path \<Rightarrow> node \<Rightarrow> error + node" where
  "unlink_file p t =
     (case node_at t p of Some (File c) \<Rightarrow> remove_at p t | _ \<Rightarrow> Inl IOError)"

definition unlinkSync :: "path \<Rightarrow> state \<Rightarrow> outcome" where
  "unlinkSync p = call (Unlink p) (unlink_file p)"

text \<open>\<open>extfs.isEmptySync\<close>: a missing path, a directory without entries, a file of length 0.\<close>

definition is_empty_at :: "node \<Rightarrow> path \<Rightarrow> bool" where
  "is_empty_at t p =
     (case node_at t p of
        None \<Rightarrow> True
      | Some (Dir kids) \<Rightarrow> kids = []
      | Some (File (Text x)) \<Rightarrow> x = []
      | Some (File (Json c)) \<Rightarrow> False)"

definition isEmptySync :: "path \<Rightarrow> state \<Rightarrow> bool \<times> state" where
  "isEmptySync p s = (is_empty_at (tree s) p, s\<lparr>trace := trace s @ [IsEmpty p]\<rparr>)"

fun forEach :: "('a \<Rightarrow> state \<Rightarrow> outcome) \<Rightarrow> 'a list \<Rightarrow> state \<Rightarrow> outcome" where
  "forEach body [] s = Inr s"
| "forEach body (x # xs) s =
     (case body x s of Inl e \<Rightarrow> Inl e | Inr s' \<Rightarrow> forEach body xs s')"

section \<open>The script\<close>

definition PROJECT_RELATIVE_PACKAGES_PATH :: string where
  "PROJECT_RELATIVE_PACKAGES_PATH = ''Assets/Plugins/Packages''"

definition specialKeyword :: string where
  "specialKeyword = ''unity3d-package''"

definition extraFiles :: "string list" where
  "extraFiles = [''package.json'', ''README.md'', ''LICENSE'']"

definition projectPackagesDir :: "path \<Rightarrow> path" where
  "projectPackagesDir projectRootDir = path_join projectRootDir [PROJECT_RELATIVE_PACKAGES_PATH]"

definition validateProjectPackageDirectory :: "path \<Rightarrow> state \<Rightarrow> outcome" where
  "validateProjectPackageDirectory packageDir =
     call (Validate packageDir)
       (\<lambda>t. if \<not> str_includes (path_str packageDir) PROJECT_RELATIVE_PACKAGES_PATH
            then Inl (UnexpectedPath (path_str packageDir)) else Inr t)"

fun filter_directories :: "node \<Rightarrow> path \<Rightarrow> string list \<Rightarrow> error + string list" where
  "filter_directories t srcpath [] = Inr []"
| "filter_directories t srcpath (file # files) =
     (case statSync t (path_join srcpath [file]) of
        Inl e \<Rightarrow> Inl e
      | Inr n \<Rightarrow>
          (case filter_directories t srcpath files of
             Inl e \<Rightarrow> Inl e
           | Inr ds \<Rightarrow> Inr (if is_dir n then file # ds else ds)))"

definition getDirectories :: "node \<Rightarrow> path \<Rightarrow> error + string list" where
  "getDirectories t srcpath =
     (case readdirSync t srcpath of
        Inl e \<Rightarrow> Inl e
      | Inr files \<Rightarrow> filter_directories t srcpath files)"

fun flatMap :: "'a list \<Rightarrow> ('a \<Rightarrow> error + 'b list) \<Rightarrow> error + 'b list" where
  "flatMap [] cb = Inr []"
| "flatMap (x # xs) cb =
     (case cb x of
        Inl e \<Rightarrow> Inl e
      | Inr ys \<Rightarrow> (case flatMap xs cb of Inl e \<Rightarrow> Inl e | Inr zs \<Rightarrow> Inr (ys @ zs)))"

definition getProjectPackageListing :: "path \<Rightarrow> node \<Rightarrow> error + string list" where
  "getProjectPackageListing projectRootDir t =
     (case getDirectories t (projectPackagesDir projectRootDir) of
        Inl e \<Rightarrow> Inl e
      | Inr dirs \<Rightarrow>
          flatMap dirs (\<lambda>packageDirectory.
            if startsWith packageDirectory ''@''
            then (case getDirectories t (path_join (projectPackagesDir projectRootDir) [packageDirectory]) of
                    Inl e \<Rightarrow> Inl e
                  | Inr names \<Rightarrow>
                      Inr (map (\<lambda>scopedPackageName. packageDirectory @ ''/'' @ scopedPackageName) names))
            else Inr [packageDirectory]))"

definition getProjectPackageScopes :: "path \<Rightarrow> node \<Rightarrow> error + string list" where
  "getProjectPackageScopes projectRootDir t =
     (case getDirectories t (projectPackagesDir projectRootDir) of
        Inl e \<Rightarrow> Inl e
      | Inr dirs \<Rightarrow> Inr (filter (\<lambda>packageDirectory. startsWith packageDirectory ''@'') dirs))"

subsection \<open>Phase 1: copy packages into the project's packages directory\<close>

definition copyIfExistsSync :: "path \<Rightarrow> path \<Rightarrow> string \<Rightarrow> string option \<Rightarrow> state \<Rightarrow> outcome" where
  "copyIfExistsSync dependencyDir assetsTargetPath sourceRelativeFileName targetRelativeFileName s =
     (let sourcePath = path_join dependencyDir [sourceRelativeFileName] in
      if existsSync (tree s) sourcePath then
        (let targetPath = path_join assetsTargetPath
               [case targetRelativeFileName of None \<Rightarrow> sourceRelativeFileName | Some n \<Rightarrow> n]
         in copySync sourcePath targetPath s)
      else Inr s)"

text \<open>Lines 72 to 77: \<open>forEach\<close> hands the callback an index as second argument, not a string.\<close>

definition install :: "path \<Rightarrow> path \<Rightarrow> state \<Rightarrow> outcome" where
  "install dependencyDir assetsTargetPath s =
     (case emptyDirSync assetsTargetPath s of
        Inl e \<Rightarrow> Inl e
      | Inr s1 \<Rightarrow>
          (case copyIfExistsSync dependencyDir assetsTargetPath ''assets'' (Some []) s1 of
             Inl e \<Rightarrow> Inl e
           | Inr s2 \<Rightarrow>
               forEach (\<lambda>f. copyIfExistsSync dependencyDir assetsTargetPath f None) extraFiles s2))"

definition syncDependency :: "path \<Rightarrow> string \<Rightarrow> state \<Rightarrow> outcome" where
  "syncDependency projectRootDir dependencyName s =
     (let dependencyDir = path_join projectRootDir [''node_modules'', dependencyName];
          dependencyConfigPath = path_join dependencyDir [''package.json'']
      in case readJsonSync (tree s) dependencyConfigPath of
           Inl e \<Rightarrow> Inl (e, trace s)
         | Inr dependencyConfig \<Rightarrow>
             (let dependencyKeywords =
                    (case cfg_keywords dependencyConfig of None \<Rightarrow> [] | Some ks \<Rightarrow> ks)
              in if specialKeyword \<notin> set dependencyKeywords then Inr s
                 else
                  (let assetsTargetPath =
                         path_resolve (projectPackagesDir projectRootDir) dependencyName
                   in case validateProjectPackageDirectory assetsTargetPath s of
                        Inl e \<Rightarrow> Inl e
                      | Inr s1 \<Rightarrow>
                          (let assetsTargetConfigPath = path_join assetsTargetPath [''package.json'']
                           in if existsSync (tree s1) assetsTargetConfigPath then
                                (case readJsonSync (tree s1) assetsTargetConfigPath of
                                   Inl e \<Rightarrow> Inl (e, trace s1)
                                 | Inr assetsTargetConfig \<Rightarrow>
                                     if cfg_version dependencyConfig = cfg_version assetsTargetConfig
                                     then Inr s1
                                     else install dependencyDir assetsTargetPath s1)
                              else install dependencyDir assetsTargetPath s1))))"

definition phase1 :: "path \<Rightarrow> string list \<Rightarrow> state \<Rightarrow> outcome" where
  "phase1 projectRootDir projectDependencies = forEach (syncDependency projectRootDir) projectDependencies"

subsection \<open>Phase 2: remove redundant packages\<close>

definition removeRedundant :: "path \<Rightarrow> string \<Rightarrow> state \<Rightarrow> outcome" where
  "removeRedundant projectRootDir redundantPackageName s =
     (let redundantPackageDir = path_resolve (projectPackagesDir projectRootDir) redundantPackageName;
          redundantPackageMetaPath =
            path_resolve (projectPackagesDir projectRootDir) (redundantPackageName @ ''.meta'')
      in case validateProjectPackageDirectory redundantPackageDir s of
           Inl e \<Rightarrow> Inl e
         | Inr s1 \<Rightarrow>
             (case (if existsSync (tree s1) redundantPackageDir
                    then removeSync redundantPackageDir s1 else Inr s1) of
                Inl e \<Rightarrow> Inl e
              | Inr s2 \<Rightarrow>
                  if existsSync (tree s2) redundantPackageMetaPath
                  then unlinkSync redundantPackageMetaPath s2 else Inr s2))"

definition phase2 :: "path \<Rightarrow> string list \<Rightarrow> state \<Rightarrow> outcome" where
  "phase2 projectRootDir projectDependencies s =
     (case getProjectPackageListing projectRootDir (tree s) of
        Inl e \<Rightarrow> Inl (e, trace s)
      | Inr projectPackageListing \<Rightarrow>
          (let projectRedundantPackageNames =
                 filter (\<lambda>packageName. packageName \<notin> set projectDependencies)
                   projectPackageListing
           in forEach (removeRedundant projectRootDir) projectRedundantPackageNames s))"

subsection \<open>Phase 3: remove empty scope directories\<close>

definition pruneScope :: "path \<Rightarrow> string \<Rightarrow> state \<Rightarrow> outcome" where
  "pruneScope projectRootDir projectPackageScope s =
     (let projectPackageScopeDir = path_resolve (projectPackagesDir projectRootDir) projectPackageScope;
          projectPackageScopeMeta =
            path_resolve (projectPackagesDir projectRootDir) (projectPackageScope @ ''.meta'')
      in case validateProjectPackageDirectory projectPackageScopeDir s of
           Inl e \<Rightarrow> Inl e
         | Inr s1 \<Rightarrow>
             (case isEmptySync projectPackageScopeDir s1 of
                (True, s2) \<Rightarrow>
                  (case removeSync projectPackageScopeDir s2 of
                     Inl e \<Rightarrow> Inl e
                   | Inr s3 \<Rightarrow>
                       if existsSync (tree s3) projectPackageScopeMeta
                       then unlinkSync projectPackageScopeMeta s3 else Inr s3)
              | (False, s2) \<Rightarrow> Inr s2))"

definition phase3 :: "path \<Rightarrow> state \<Rightarrow> outcome" where
  "phase3 projectRootDir s =
     (case getProjectPackageScopes projectRootDir (tree s) of
        Inl e \<Rightarrow> Inl (e, trace s)
      | Inr scopes \<Rightarrow> forEach (pruneScope projectRootDir) scopes s)"

subsection \<open>The whole run\<close>

definition sync :: "path \<Rightarrow> state \<Rightarrow> outcome" where
  "sync projectRootDir s =
     (case readJsonSync (tree s) (path_join projectRootDir [''package.json'']) of
        Inl e \<Rightarrow> Inl (e, trace s)
      | Inr projectConfig \<Rightarrow>
          (let projectDependencies =
                 (case cfg_dependencies projectConfig of None \<Rightarrow> [] | Some ds \<Rightarrow> ds)
           in case phase1 projectRootDir projectDependencies s of
                Inl e \<Rightarrow> Inl e
              | Inr s1 \<Rightarrow>
                  (case phase2 projectRootDir projectDependencies s1 of
                     Inl e \<Rightarrow> Inl e
                   | Inr s2 \<Rightarrow> phase3 projectRootDir s2)))"

section \<open>Auxiliary notions\<close>

fun onode_at :: "node option \<Rightarrow> path \<Rightarrow> node option" where
  "onode_at None p = None"
| "onode_at (Some n) p = node_at n p"

fun wf_opt :: "node option \<Rightarrow> bool" where
  "wf_opt None = True"
| "wf_opt (Some n) = wf n"

definition apart :: "path \<Rightarrow> path \<Rightarrow> bool" where
  "apart p q = (\<not> prefix p q \<and> \<not> prefix q p)"

fun free_way :: "node option \<Rightarrow> path \<Rightarrow> bool" where
  "free_way cur [] = True"
| "free_way None (s # p) = True"
| "free_way (Some (File c)) (s # p) = False"
| "free_way (Some (Dir kids)) (s # p) = free_way (map_of kids s) p"

definition guard_ok :: "path \<Rightarrow> bool" where
  "guard_ok p = str_includes (path_str p) PROJECT_RELATIVE_PACKAGES_PATH"

definition trace_of :: "outcome \<Rightarrow> event list" where
  "trace_of r = (case r of Inl (e, tr) \<Rightarrow> tr | Inr s \<Rightarrow> trace s)"

definition keywords_of :: "config \<Rightarrow> string list" where
  "keywords_of c = (case cfg_keywords c of None \<Rightarrow> [] | Some ks \<Rightarrow> ks)"

subsection \<open>A small project used for concrete runs\<close>

definition package_json :: "string \<Rightarrow> bool \<Rightarrow> node" where
  "package_json v marked =
     File (Json \<lparr>cfg_version = Some v,
                  cfg_keywords = (if marked then Some [''unity'', ''unity3d-package''] else None),
                  cfg_dependencies = None\<rparr>)"

definition example_project :: node where
  "example_project = Dir [(''proj'', Dir [
     (''package.json'', File (Json \<lparr>cfg_version = None, cfg_keywords = None,
         cfg_dependencies = Some [''foo'', ''@org/bar'', ''lib'']\<rparr>)),
     (''node_modules'', Dir [
        (''foo'', Dir [(''package.json'', package_json ''1.0.0'' True),
                       (''assets'', Dir [(''a.cs'', File (Text ''x''))]),
                       (''README.md'', File (Text ''r''))]),
        (''@org'', Dir [(''bar'', Dir [(''package.json'', package_json ''2.0'' True),
                                      (''LICENSE'', File (Text ''l''))])]),
        (''lib'', Dir [(''package.json'', package_json ''3'' False)])]),
     (''Assets'', Dir [(''Plugins'', Dir [(''Packages'', Dir [
        (''foo'', Dir [(''package.json'', package_json ''1.0'' True),
                       (''stale.cs'', File (Text ''s''))]),
        (''@org'', Dir [(''bar'', Dir [(''package.json'', package_json ''2.0'' True)])]),
        (''old'', Dir []), (''old.meta'', File (Text ''m'')),
        (''@gone'', Dir [(''x'', Dir [])]), (''@gone.meta'', File (Text ''m''))])])])])]"

fun entries_of :: "string \<times> node \<Rightarrow> string list" where
  "entries_of (name, File c) = []"
| "entries_of (name, Dir sub) =
     (if startsWith name ''@''
      then map (\<lambda>child. name @ ''/'' @ child) (map fst (filter (\<lambda>kc. is_dir (snd kc)) sub))
      else [name])"

definition subdirectories :: "(string \<times> node) list \<Rightarrow> string list" where
  "subdirectories kids = map fst (filter (\<lambda>kc. is_dir (snd kc)) kids)"

text \<open>
  The shape of an installed entry's name: one directory name that does not start with
  \<open>@\<close>, or a scope directory name starting with \<open>@\<close>, a separator and a child name.
\<close>

definition package_name :: "string \<Rightarrow> bool" where
  "package_name e =
     (case split_sep e of
        [x] \<Rightarrow> plain x \<and> \<not> startsWith x ''@''
      | [scope, child] \<Rightarrow> plain scope \<and> plain child \<and> startsWith scope ''@''
      | _ \<Rightarrow> False)"

fun validated :: "event list \<Rightarrow> path set" where
  "validated [] = {}"
| "validated (Validate p # es) = insert p (validated es)"
| "validated (e # es) = validated es"

definition passing :: "event list \<Rightarrow> bool" where
  "passing tr = (\<forall>p \<in> validated tr. guard_ok p)"

text \<open>
  \<open>guarded_from V tr\<close>: along \<open>tr\<close>, starting with the validated paths \<open>V\<close>, every
  path handed to \<open>emptyDirSync\<close>, \<open>removeSync\<close> or \<open>isEmptySync\<close> was handed to the guard
  before and passed it; every path handed to \<open>unlinkSync\<close> is such a validated path with
  \<open>.meta\<close> appended and contains the packages path itself; and nothing follows a guard
  that fails.
\<close>

fun guarded_from :: "path set \<Rightarrow> event list \<Rightarrow> bool" where
  "guarded_from V [] = True"
| "guarded_from V (Validate p # es) = (if guard_ok p then guarded_from (insert p V) es else es = [])"
| "guarded_from V (EmptyDir p # es) = (p \<in> V \<and> guarded_from V es)"
| "guarded_from V (Remove p # es) = (p \<in> V \<and> guarded_from V es)"
| "guarded_from V (IsEmpty p # es) = (p \<in> V \<and> guarded_from V es)"
| "guarded_from V (Unlink p # es) =
     ((\<exists>q \<in> V. path_str p = path_str q @ ''.meta'') \<and> guard_ok p \<and> guarded_from V es)"
| "guarded_from V (Copy src dst # es) = guarded_from V es"

text \<open>The same with the sidecar path itself required among the validated paths.\<close>

fun each_validated_from :: "path set \<Rightarrow> event list \<Rightarrow> bool" where
  "each_validated_from V [] = True"
| "each_validated_from V (Validate p # es) =
     (if guard_ok p then each_validated_from (insert p V) es else es = [])"
| "each_validated_from V (EmptyDir p # es) = (p \<in> V \<and> each_validated_from V es)"
| "each_validated_from V (Remove p # es) = (p \<in> V \<and> each_validated_from V es)"
| "each_validated_from V (IsEmpty p # es) = (p \<in> V \<and> each_validated_from V es)"
| "each_validated_from V (Unlink p # es) = (p \<in> V \<and> each_validated_from V es)"
| "each_validated_from V (Copy src dst # es) = each_validated_from V es"

definition guard_failed :: "error \<Rightarrow> event list \<Rightarrow> bool" where
  "guard_failed e tr =
     (tr \<noteq> [] \<and> (case last tr of
                     Validate p \<Rightarrow> \<not> guard_ok p \<and> e = UnexpectedPath (path_str p)
                   | _ \<Rightarrow> False))"

fun safe_outcome :: "outcome \<Rightarrow> bool" where
  "safe_outcome (Inr s) = (guarded_from {} (trace s) \<and> passing (trace s))"
| "safe_outcome (Inl (e, tr)) = (guarded_from {} tr \<and> (passing tr \<or> guard_failed e tr))"

definition guarded_state :: "state \<Rightarrow> bool" where
  "guarded_state s = (wf (tree s) \<and> passing (trace s) \<and> guarded_from {} (trace s))"

fun guarded_result :: "outcome \<Rightarrow> bool" where
  "guarded_result (Inr s) = guarded_state s"
| "guarded_result (Inl (e, tr)) = (guarded_from {} tr \<and> (passing tr \<or> guard_failed e tr))"

fun join_sep :: "string list \<Rightarrow> string" where
  "join_sep [] = []"
| "join_sep [x] = x"
| "join_sep (x # y # ys) = x @ CHR ''/'' # join_sep (y # ys)"

text \<open>The directory and the sidecar of an entry, as segments below the packages directory.\<close>

definition meta_segments :: "string \<Rightarrow> string list" where
  "meta_segments e = butlast (split_sep e) @ [last (split_sep e) @ ''.meta'']"

text \<open>What a pair of deletions, of a directory and then of its sidecar, does to the tree.\<close>

definition deleted_pair :: "path \<Rightarrow> path \<Rightarrow> node \<Rightarrow> node \<Rightarrow> bool" where
  "deleted_pair dir meta t t' =
     (\<exists>ta. (remove_at dir t = Inr ta \<or> node_at t dir = None \<and> ta = t)
         \<and> ((\<exists>c. node_at ta meta = Some (File c)) \<and> remove_at meta ta = Inr t'
              \<or> node_at ta meta = None \<and> t' = ta))"

subsection \<open>The loop of phase 2\<close>

definition shrunk :: "node \<Rightarrow> node \<Rightarrow> bool" where
  "shrunk t t' = (\<forall>q n'. node_at t' q = Some n' \<longrightarrow> (\<exists>n. node_at t q = Some n \<and> is_dir n = is_dir n'))"

definition abc_project :: node where
  "abc_project = Dir [(''p'', Dir [(''Assets'', Dir [(''Plugins'', Dir [(''Packages'', Dir [
     (''A'', Dir [(''a.cs'', File (Text ''a''))]), (''A.meta'', File (Text ''m'')),
     (''B'', Dir [(''b.cs'', File (Text ''b''))]), (''B.meta'', File (Text ''m'')),
     (''C'', Dir [])])])])])]"

definition abc_after :: state where
  "abc_after =
     \<lparr>tree = Dir [(''p'', Dir [(''Assets'', Dir [(''Plugins'', Dir [(''Packages'', Dir [
               (''A'', Dir [(''a.cs'', File (Text ''a''))]), (''A.meta'', File (Text ''m'')),
               (''C'', Dir [])])])])])],
      trace = [Validate [''p'', ''Assets'', ''Plugins'', ''Packages'', ''B''],
               Remove [''p'', ''Assets'', ''Plugins'', ''Packages'', ''B''],
               Unlink [''p'', ''Assets'', ''Plugins'', ''Packages'', ''B.meta'']]\<rparr>"

definition final_tree :: "outcome \<Rightarrow> node option" where
  "final_tree r = (case r of Inl e \<Rightarrow> None | Inr s \<Rightarrow> Some (tree s))"

definition packages_tree :: "(string \<times> node) list \<Rightarrow> node" where
  "packages_tree kids =
     Dir [(''p'', Dir [(''Assets'', Dir [(''Plugins'', Dir [(''Packages'', Dir kids)])])])]"

definition scoped_project :: node where
  "scoped_project =
     packages_tree [(''@org'', Dir [(''bar'', Dir []), (''baz'', Dir [])]), (''tool'', Dir [])]"

definition scoped_after :: state where
  "scoped_after =
     \<lparr>tree = packages_tree [(''@org'', Dir [(''bar'', Dir [])])],
      trace = [Validate [''p'', ''Assets'', ''Plugins'', ''Packages'', ''@org'', ''baz''],
               Remove [''p'', ''Assets'', ''Plugins'', ''Packages'', ''@org'', ''baz''],
               Validate [''p'', ''Assets'', ''Plugins'', ''Packages'', ''tool''],
               Remove [''p'', ''Assets'', ''Plugins'', ''Packages'', ''tool'']]\<rparr>"

definition scoped_without_baz :: state where
  "scoped_without_baz =
     \<lparr>tree = packages_tree [(''@org'', Dir [(''bar'', Dir [])]), (''tool'', Dir [])],
      trace = [Validate [''p'', ''Assets'', ''Plugins'', ''Packages'', ''@org'', ''baz''],
               Remove [''p'', ''Assets'', ''Plugins'', ''Packages'', ''@org'', ''baz'']]\<rparr>"

definition scoped_without_tool :: state where
  "scoped_without_tool =
     \<lparr>tree = packages_tree [(''@org'', Dir [(''bar'', Dir []), (''baz'', Dir [])])],
      trace = [Validate [''p'', ''Assets'', ''Plugins'', ''Packages'', ''tool''],
               Remove [''p'', ''Assets'', ''Plugins'', ''Packages'', ''tool'']]\<rparr>"

fun emptiness_checks :: "event list \<Rightarrow> path list" where
  "emptiness_checks [] = []"
| "emptiness_checks (IsEmpty p # es) = p # emptiness_checks es"
| "emptiness_checks (e # es) = emptiness_checks es"

text \<open>
  \<open>pruned kids name\<close>: among the entries \<open>kids\<close> of the packages directory there is an
  empty directory whose name starts with \<open>@\<close>, and \<open>name\<close> is its name or the name of its
  sidecar.
\<close>

definition pruned :: "(string \<times> node) list \<Rightarrow> string \<Rightarrow> bool" where
  "pruned kids name =
     list_ex (\<lambda>mc. snd mc = Dir [] \<and> startsWith (fst mc) ''@''
                   \<and> (name = fst mc \<or> name = fst mc @ ''.meta'')) kids"

definition scopes_kids :: "(string \<times> node) list" where
  "scopes_kids =
     [(''@gone'', Dir []), (''@gone.meta'', File (Text ''m'')),
      (''@org'', Dir [(''bar'', Dir [])]), (''@org.meta'', File (Text ''m'')),
      (''tool'', Dir [])]"

definition scopes_after :: state where
  "scopes_after =
     \<lparr>tree = packages_tree [(''@org'', Dir [(''bar'', Dir [])]), (''@org.meta'', File (Text ''m'')),
                            (''tool'', Dir [])],
      trace = [Validate [''p'', ''Assets'', ''Plugins'', ''Packages'', ''@gone''],
               IsEmpty [''p'', ''Assets'', ''Plugins'', ''Packages'', ''@gone''],
               Remove [''p'', ''Assets'', ''Plugins'', ''Packages'', ''@gone''],
               Unlink [''p'', ''Assets'', ''Plugins'', ''Packages'', ''@gone.meta''],
               Validate [''p'', ''Assets'', ''Plugins'', ''Packages'', ''@org''],
               IsEmpty [''p'', ''Assets'', ''Plugins'', ''Packages'', ''@org'']]\<rparr>"

text \<open>The source directory of a dependency and its destination never overlap.\<close>

definition separate :: "path \<Rightarrow> path \<Rightarrow> bool" where
  "separate dependencyDir assetsTargetPath = (\<forall>r r'. apart (assetsTargetPath @ r) (dependencyDir @ r'))"

text \<open>The calls a loop over extra files makes, given which of them exist at the source.\<close>

definition extra_copies :: "node \<Rightarrow> path \<Rightarrow> path \<Rightarrow> string list \<Rightarrow> event list" where
  "extra_copies t d tgt fs =
     concat (map (\<lambda>f. if existsSync t (d @ [f]) then [Copy (d @ [f]) (tgt @ [f])] else []) fs)"

text \<open>
  A source that the copies of an installation accept: \<open>assets\<close> is missing or a directory
  that holds no directory under the name of an extra file, and each extra file is
  missing or a file.
\<close>

definition regular_source :: "node \<Rightarrow> path \<Rightarrow> bool" where
  "regular_source tr dependencyDir =
     ((case node_at tr (dependencyDir @ [''assets'']) of
         None \<Rightarrow> True
       | Some (File c) \<Rightarrow> False
       | Some (Dir kids) \<Rightarrow>
           list_all (\<lambda>f. case map_of kids f of Some (Dir sub) \<Rightarrow> False | _ \<Rightarrow> True) extraFiles)
      \<and> list_all (\<lambda>f. case node_at tr (dependencyDir @ [f]) of Some (Dir sub) \<Rightarrow> False | _ \<Rightarrow> True)
           extraFiles)"

text \<open>A project \<open>p\<close> given by the content of \<open>node_modules\<close> and of the packages directory.\<close>

definition project_with :: "(string \<times> node) list \<Rightarrow> (string \<times> node) list \<Rightarrow> node" where
  "project_with modules packages =
     Dir [(''p'', Dir [(''node_modules'', Dir modules),
                       (''Assets'', Dir [(''Plugins'', Dir [(''Packages'', Dir packages)])])])]"

definition foo_source :: "(string \<times> node) list" where
  "foo_source = [(''foo'', Dir [(''package.json'', package_json ''1.0.0'' True),
                               (''assets'', Dir [(''a.cs'', File (Text ''x''))]),
                               (''README.md'', File (Text ''r''))])]"

definition foo_installed :: state where
  "foo_installed =
     \<lparr>tree = project_with foo_source
          [(''foo'', Dir [(''a.cs'', File (Text ''x'')),
                         (''package.json'', package_json ''1.0.0'' True),
                         (''README.md'', File (Text ''r''))])],
      trace = [EmptyDir [''p'', ''Assets'', ''Plugins'', ''Packages'', ''foo''],
               Copy [''p'', ''node_modules'', ''foo'', ''assets'']
                    [''p'', ''Assets'', ''Plugins'', ''Packages'', ''foo''],
               Copy [''p'', ''node_modules'', ''foo'', ''package.json'']
                    [''p'', ''Assets'', ''Plugins'', ''Packages'', ''foo'', ''package.json''],
               Copy [''p'', ''node_modules'', ''foo'', ''README.md'']
                    [''p'', ''Assets'', ''Plugins'', ''Packages'', ''foo'', ''README.md'']]\<rparr>"

definition bare_project :: node where
  "bare_project =
     Dir [(''p'', Dir [(''node_modules'', Dir [(''@org'', Dir [(''bar'',
             Dir [(''package.json'', package_json ''2.0'' True),
                  (''LICENSE'', File (Text ''l''))])])])])]"

definition bar_installed :: state where
  "bar_installed =
     \<lparr>tree = Dir [(''p'', Dir [
          (''node_modules'', Dir [(''@org'', Dir [(''bar'',
             Dir [(''package.json'', package_json ''2.0'' True),
                  (''LICENSE'', File (Text ''l''))])])]),
          (''Assets'', Dir [(''Plugins'', Dir [(''Packages'', Dir [(''@org'', Dir [(''bar'',
             Dir [(''package.json'', package_json ''2.0'' True),
                  (''LICENSE'', File (Text ''l''))])])])])])])],
      trace = [Validate [''p'', ''Assets'', ''Plugins'', ''Packages'', ''@org'', ''bar''],
               EmptyDir [''p'', ''Assets'', ''Plugins'', ''Packages'', ''@org'', ''bar''],
               Copy [''p'', ''node_modules'', ''@org'', ''bar'', ''package.json'']
                    [''p'', ''Assets'', ''Plugins'', ''Packages'', ''@org'', ''bar'', ''package.json''],
               Copy [''p'', ''node_modules'', ''@org'', ''bar'', ''LICENSE'']
                    [''p'', ''Assets'', ''Plugins'', ''Packages'', ''@org'', ''bar'', ''LICENSE'']]\<rparr>"

definition gate_modules :: "(string \<times> node) list" where
  "gate_modules =
     [(''foo'', Dir [(''package.json'', package_json ''1.0.0'' True),
                    (''assets'', Dir [(''a.cs'', File (Text ''x''))]),
                    (''README.md'', File (Text ''r''))]),
      (''@org'', Dir [(''bar'', Dir [(''package.json'', package_json ''2.0'' True),
                                    (''assets'', Dir [(''b.cs'', File (Text ''new''))])])])]"

definition gate_project :: node where
  "gate_project = project_with gate_modules
     [(''foo'', Dir [(''package.json'', package_json ''1.0'' True),
                    (''stale.cs'', File (Text ''s''))]),
      (''@org'', Dir [(''bar'', Dir [(''package.json'', package_json ''2.0'' True),
                                    (''b.cs'', File (Text ''old''))])])]"

definition gate_replaced :: state where
  "gate_replaced =
     \<lparr>tree = project_with gate_modules
         [(''foo'', Dir [(''a.cs'', File (Text ''x'')),
                        (''package.json'', package_json ''1.0.0'' True),
                        (''README.md'', File (Text ''r''))]),
          (''@org'', Dir [(''bar'', Dir [(''package.json'', package_json ''2.0'' True),
                                        (''b.cs'', File (Text ''old''))])])],
      trace = [Validate [''p'', ''Assets'', ''Plugins'', ''Packages'', ''foo''],
               EmptyDir [''p'', ''Assets'', ''Plugins'', ''Packages'', ''foo''],
               Copy [''p'', ''node_modules'', ''foo'', ''assets'']
                    [''p'', ''Assets'', ''Plugins'', ''Packages'', ''foo''],
               Copy [''p'', ''node_modules'', ''foo'', ''package.json'']
                    [''p'', ''Assets'', ''Plugins'', ''Packages'', ''foo'', ''package.json''],
               Copy [''p'', ''node_modules'', ''foo'', ''README.md'']
                    [''p'', ''Assets'', ''Plugins'', ''Packages'', ''foo'', ''README.md'']]\<rparr>"






section \<open>Basic facts\<close>

subsection \<open>Paths\<close>

lemma split_sep_nonempty: "split_sep s \<noteq> []"
  by (induction s) (auto split: list.splits)

lemma split_sep_no_sep: "CHR ''/'' \<notin> set s \<Longrightarrow> split_sep s = [s]"
  by (induction s) auto

lemma split_sep_segments: "x \<in> set (split_sep s) \<Longrightarrow> CHR ''/'' \<notin> set x"
  by (induction s arbitrary: x) (auto split: if_splits list.splits)

lemma split_sep_append:
  "split_sep (a @ CHR ''/'' # b) = split_sep a @ split_sep b"
  by (induction a) (auto split: list.splits simp: split_sep_nonempty)

lemma split_sep_append_last:
  "CHR ''/'' \<notin> set b \<Longrightarrow> split_sep (a @ b) = butlast (split_sep a) @ [last (split_sep a) @ b]"
proof (induction a)
  case Nil
  then show ?case by (simp add: split_sep_no_sep)
next
  case (Cons c a)
  then show ?case
    by (cases "split_sep a") (auto simp: split_sep_nonempty)
qed

lemma normalize_onto_append: "normalize_onto base (xs @ ys) = normalize_onto (normalize_onto base xs) ys"
  by (induction xs arbitrary: base) auto

lemma normalize_onto_plain: "list_all plain segs \<Longrightarrow> normalize_onto base segs = base @ segs"
  by (induction segs arbitrary: base) (auto simp: plain_def)

lemma list_all_butlast: "list_all P xs \<Longrightarrow> list_all P (butlast xs)"
  by (induction xs) auto

lemma normalize_onto_keeps_plain:
  "list_all plain base \<Longrightarrow> \<forall>x \<in> set segs. CHR ''/'' \<notin> set x \<Longrightarrow>
   list_all plain (normalize_onto base segs)"
  by (induction segs arbitrary: base) (auto simp: plain_def list_all_butlast)

lemma path_join_keeps_plain: "list_all plain base \<Longrightarrow> list_all plain (path_join base parts)"
  unfolding path_join_def
  by (rule normalize_onto_keeps_plain) (auto dest: split_sep_segments)

lemma path_resolve_keeps_plain: "list_all plain base \<Longrightarrow> list_all plain (path_resolve base part)"
  unfolding path_resolve_def
  by (auto intro!: normalize_onto_keeps_plain dest: split_sep_segments)

lemma path_join_plain: "plain x \<Longrightarrow> path_join base [x] = base @ [x]"
  by (simp add: path_join_def split_sep_no_sep plain_def normalize_onto_plain)

subsection \<open>Trees\<close>

lemma onode_at_Nil [simp]: "onode_at cur [] = cur"
  by (cases cur) auto

lemma node_at_append:
  "node_at t (p @ q) = (case node_at t p of None \<Rightarrow> None | Some n \<Rightarrow> node_at n q)"
  by (induction t p rule: node_at.induct) (auto split: option.splits)

lemma map_of_wf: "wf (Dir kids) \<Longrightarrow> map_of kids k = Some c \<Longrightarrow> plain k \<and> wf c"
  by (auto dest!: map_of_SomeD)

lemma wf_node_at: "wf t \<Longrightarrow> node_at t p = Some n \<Longrightarrow> wf n \<and> list_all plain p"
proof (induction t p rule: node_at.induct)
  case (3 kids s p)
  then show ?case
    by (auto split: option.splits dest!: map_of_SomeD)
qed auto

lemma node_at_prefix_None: "node_at t p = None \<Longrightarrow> node_at t (p @ q) = None"
  by (simp add: node_at_append)


lemma wf_update:
  "wf (Dir kids) \<Longrightarrow> plain k \<Longrightarrow> wf c \<Longrightarrow> wf (Dir (AList.update k c kids))"
proof -
  assume a: "wf (Dir kids)" "plain k" "wf c"
  have "set (AList.update k c kids) \<subseteq> insert (k, c) (set kids)"
    by (induction kids) auto
  with a show ?thesis
    by (auto simp: AList.distinct_update)
qed

lemma wf_delete: "wf (Dir kids) \<Longrightarrow> wf (Dir (AList.delete k kids))"
proof -
  assume a: "wf (Dir kids)"
  have "set (AList.delete k kids) \<subseteq> set kids"
    by (auto simp: AList.delete_eq)
  with a show ?thesis
    by (auto simp: AList.distinct_delete)
qed

subsection \<open>Rewriting one node\<close>

lemma modify_at_node:
  "modify_at p f cur = Inr t' \<Longrightarrow> \<exists>r. f (onode_at cur p) = Inr r \<and> node_at t' p = Some r"
proof (induction p f cur arbitrary: t' rule: modify_at.induct)
  case (4 s p f kids)
  then show ?case
    by (cases "map_of kids s") (auto split: sum.splits simp: AList.update_conv')
qed (auto split: sum.splits)

lemma modify_at_frame:
  "modify_at p f cur = Inr t' \<Longrightarrow> \<not> prefix p q \<Longrightarrow> \<not> prefix q p \<Longrightarrow>
   node_at t' q = onode_at cur q"
proof (induction p f cur arbitrary: t' q rule: modify_at.induct)
  case (1 f cur)
  then show ?case by simp
next
  case (2 s p f)
  then show ?case
    by (cases q) (auto split: sum.splits)
next
  case (3 s p f c)
  then show ?case by simp
next
  case (4 s p f kids)
  then show ?case
    by (cases q; cases "map_of kids s") (auto split: sum.splits simp: AList.update_conv')
qed

lemma modify_at_wf:
  "modify_at p f cur = Inr t' \<Longrightarrow> wf_opt cur \<Longrightarrow> list_all plain p \<Longrightarrow>
   (\<And>x r. wf_opt x \<Longrightarrow> f x = Inr r \<Longrightarrow> wf r) \<Longrightarrow> wf t'"
proof (induction p f cur arbitrary: t' rule: modify_at.induct)
  case (1 f cur)
  then show ?case by simp
next
  case (2 s p f)
  then show ?case by (auto split: sum.splits)
next
  case (3 s p f c)
  then show ?case by simp
next
  case (4 s p f kids)
  from "4.prems" obtain c where c: "modify_at p f (map_of kids s) = Inr c"
    and t': "t' = Dir (AList.update s c kids)"
    by (auto split: sum.splits)
  have "wf_opt (map_of kids s)"
    using "4.prems"(2) by (cases "map_of kids s") (auto dest!: map_of_SomeD)
  with "4.IH"[OF c] "4.prems" have "wf c" by simp
  with "4.prems" t' show ?case
    using wf_update[of kids s c] by simp
qed


lemma apart_sym: "apart p q \<Longrightarrow> apart q p"
  by (simp add: apart_def)

lemma apart_diverge: "x \<noteq> y \<Longrightarrow> apart (b @ x # r) (b @ y # r')"
  by (simp add: apart_def)

lemma apart_extend: "apart p q \<Longrightarrow> apart (p @ r) (q @ r')"
  unfolding apart_def
  by (metis prefix_append prefix_same_cases prefix_order.dual_order.trans prefixI)

lemma modify_at_apart:
  "modify_at p f (Some t) = Inr t' \<Longrightarrow> apart p q \<Longrightarrow> node_at t' q = node_at t q"
  using modify_at_frame[of p f "Some t" t' q] by (simp add: apart_def)

subsection \<open>Removing a node\<close>

lemma remove_at_gone: "remove_at p t = Inr t' \<Longrightarrow> node_at t' p = None"
proof (induction p t arbitrary: t' rule: remove_at.induct)
  case (3 s kids)
  then show ?case by (auto simp: AList.delete_conv')
next
  case (4 s q p kids)
  then show ?case
    by (cases "map_of kids s") (auto split: sum.splits simp: AList.update_conv')
qed auto

lemma remove_at_frame:
  "remove_at p t = Inr t' \<Longrightarrow> apart p q \<Longrightarrow> node_at t' q = node_at t q"
proof (induction p t arbitrary: t' q rule: remove_at.induct)
  case (3 s kids)
  then show ?case
    by (cases q) (auto simp: apart_def AList.delete_conv')
next
  case (4 s q' p kids)
  show ?case
  proof (cases q)
    case Nil
    with 4 show ?thesis by (simp add: apart_def)
  next
    case (Cons a r)
    show ?thesis
    proof (cases "map_of kids s")
      case None
      with 4 show ?thesis by auto
    next
      case (Some c)
      with "4.prems" obtain c' where c': "remove_at (q' # p) c = Inr c'"
        and t': "t' = Dir (AList.update s c' kids)"
        by (auto split: sum.splits)
      show ?thesis
      proof (cases "a = s")
        case True
        with "4.prems"(2) Cons have "apart (q' # p) r" by (simp add: apart_def)
        from "4.IH"[OF Some c' this] True Cons t' Some show ?thesis
          by (simp add: AList.update_conv')
      next
        case False
        with Cons t' show ?thesis by (simp add: AList.update_conv')
      qed
    qed
  qed
qed auto

lemma remove_at_shrinks:
  "remove_at p t = Inr t' \<Longrightarrow> node_at t' q = Some n' \<Longrightarrow>
   \<exists>n. node_at t q = Some n \<and> is_dir n = is_dir n'"
proof (induction p t arbitrary: t' q n' rule: remove_at.induct)
  case (3 s kids)
  then show ?case
    by (cases q) (auto simp: AList.delete_conv' split: if_splits option.splits)
next
  case (4 s q' p kids)
  show ?case
  proof (cases "map_of kids s")
    case None
    with 4 show ?thesis by auto
  next
    case (Some c)
    with "4.prems" obtain c' where c': "remove_at (q' # p) c = Inr c'"
      and t': "t' = Dir (AList.update s c' kids)"
      by (auto split: sum.splits)
    show ?thesis
    proof (cases q)
      case Nil
      with "4.prems" t' show ?thesis by auto
    next
      case (Cons a r)
      show ?thesis
      proof (cases "a = s")
        case True
        with "4.prems"(2) Cons t' have "node_at c' r = Some n'"
          by (simp add: AList.update_conv')
        from "4.IH"[OF Some c' this] True Cons Some show ?thesis by simp
      next
        case False
        with "4.prems"(2) Cons t' show ?thesis by (simp add: AList.update_conv')
      qed
    qed
  qed
qed auto

lemma remove_at_wf: "remove_at p t = Inr t' \<Longrightarrow> wf t \<Longrightarrow> wf t'"
proof (induction p t arbitrary: t' rule: remove_at.induct)
  case (3 s kids)
  then show ?case using wf_delete[of kids s] by auto
next
  case (4 s q p kids)
  show ?case
  proof (cases "map_of kids s")
    case None
    with 4 show ?thesis by auto
  next
    case (Some c)
    with "4.prems" obtain c' where c': "remove_at (q # p) c = Inr c'"
      and t': "t' = Dir (AList.update s c' kids)"
      by (auto split: sum.splits)
    from map_of_wf[OF "4.prems"(2) Some] have "plain s" "wf c" by auto
    with "4.IH"[OF Some c'] "4.prems"(2) t' show ?thesis
      using wf_update[of kids s c'] by simp
  qed
qed auto

lemma remove_at_succeeds:
  "node_at t p = Some n \<Longrightarrow> p \<noteq> [] \<Longrightarrow> \<exists>t'. remove_at p t = Inr t'"
proof (induction p t arbitrary: n rule: remove_at.induct)
  case (4 s q p kids)
  show ?case
  proof (cases "map_of kids s")
    case None
    then show ?thesis by simp
  next
    case (Some c)
    with "4.prems" have "node_at c (q # p) = Some n" by simp
    from "4.IH"[OF Some this] Some show ?thesis by auto
  qed
qed auto

subsection \<open>Merging a copied node\<close>

lemma update_fresh: "k \<notin> fst ` set al \<Longrightarrow> AList.update k v al = al @ [(k, v)]"
  by (induction al) auto

lemma merge_fresh:
  "wf n \<Longrightarrow> d = None \<Longrightarrow> merge_node n d = Inr n"
  "wf (Dir ks) \<Longrightarrow> fst ` set ks \<inter> fst ` set ds = {} \<Longrightarrow> merge_kids ks ds = Inr (ds @ ks)"
proof (induction n d and ks ds rule: merge_node_merge_kids.induct)
  case (4 ks)
  then show ?case by simp
next
  case (8 kc ks ds)
  have none: "map_of ds (fst kc) = None"
    using "8.prems"(2) by (auto simp: map_of_eq_None_iff)
  have first: "merge_node (snd kc) (map_of ds (fst kc)) = Inr (snd kc)"
    using "8.IH"(1) "8.prems"(1) none by simp
  have upd: "AList.update (fst kc) (snd kc) ds = ds @ [kc]"
    using "8.prems"(2) by (subst update_fresh) auto
  have ks: "wf (Dir ks)" "fst kc \<notin> fst ` set ks"
    using "8.prems"(1) by auto
  have "fst ` set ks \<inter> fst ` set (ds @ [kc]) = {}"
    using "8.prems"(2) ks(2) by auto
  then have "merge_kids ks (ds @ [kc]) = Inr ((ds @ [kc]) @ ks)"
    using "8.IH"(2)[OF first] ks(1) upd by simp
  with first upd show ?case by simp
qed simp_all

lemma merge_into_empty: "wf (Dir ks) \<Longrightarrow> merge_node (Dir ks) (Some (Dir [])) = Inr (Dir ks)"
  using merge_fresh(2)[of ks "[]"] by simp

lemma merge_file:
  assumes "merge_node (File c) d = Inr r"
  shows "r = File c"
proof (cases d)
  case None
  with assms show ?thesis by simp
next
  case (Some x)
  with assms show ?thesis by (cases x) auto
qed

lemma merge_wf:
  "wf n \<Longrightarrow> wf_opt d \<Longrightarrow> merge_node n d = Inr r \<Longrightarrow> wf r"
  "wf (Dir ks) \<Longrightarrow> wf (Dir ds) \<Longrightarrow> merge_kids ks ds = Inr rs \<Longrightarrow> wf (Dir rs)"
proof (induction n d and ks ds arbitrary: r and rs rule: merge_node_merge_kids.induct)
  case (4 ks)
  from "4.prems"(3) obtain rs where rs: "merge_kids ks [] = Inr rs" and r: "r = Dir rs"
    by (auto split: sum.splits)
  have "wf (Dir [])" by simp
  from "4.IH"[OF "4.prems"(1) this rs] r show ?case by simp
next
  case (6 ks ds)
  from "6.prems"(3) obtain rs where rs: "merge_kids ks ds = Inr rs" and r: "r = Dir rs"
    by (auto split: sum.splits)
  have "wf (Dir ds)" using "6.prems"(2) by simp
  from "6.IH"[OF "6.prems"(1) this rs] r show ?case by simp
next
  case (7 ds)
  then show ?case by simp
next
  case (8 kc ks ds)
  from "8.prems"(3) obtain c' where c': "merge_node (snd kc) (map_of ds (fst kc)) = Inr c'"
    and rest: "merge_kids ks (AList.update (fst kc) c' ds) = Inr rs"
    by (auto split: sum.splits)
  have "wf_opt (map_of ds (fst kc))"
    using "8.prems"(2) by (cases "map_of ds (fst kc)") (auto dest!: map_of_SomeD)
  moreover have kc: "wf (snd kc)" "plain (fst kc)" "wf (Dir ks)"
    using "8.prems"(1) by auto
  ultimately have "wf c'"
    using "8.IH"(1)[OF _ _ c'] by simp
  with kc "8.prems"(2) have "wf (Dir (AList.update (fst kc) c' ds))"
    using wf_update[of ds "fst kc" c'] by simp
  from "8.IH"(2)[OF c' kc(3) this rest] show ?case .
qed simp_all

subsection \<open>When rewriting a node succeeds\<close>

lemma free_way_None [simp]: "free_way None p"
  by (cases p) auto

lemma modify_at_succeeds:
  "free_way cur p \<Longrightarrow> f (onode_at cur p) = Inr r \<Longrightarrow> \<exists>t'. modify_at p f cur = Inr t'"
proof (induction p f cur rule: modify_at.induct)
  case (4 s p f kids)
  then show ?case
    by (cases "map_of kids s") (auto split: sum.splits)
qed (auto split: sum.splits)

lemma modify_at_free_way: "modify_at p f cur = Inr t' \<Longrightarrow> free_way cur p"
proof (induction p f cur arbitrary: t' rule: modify_at.induct)
  case (4 s p f kids)
  then show ?case
    by (cases "map_of kids s") (auto split: sum.splits)
qed (auto split: sum.splits)

lemma free_way_exists: "onode_at cur p \<noteq> None \<Longrightarrow> free_way cur p"
  by (induction cur p rule: free_way.induct) (auto split: option.splits)

subsection \<open>Iteration\<close>

lemma forEach_append:
  "forEach body (xs @ ys) s = (case forEach body xs s of Inl e \<Rightarrow> Inl e | Inr s' \<Rightarrow> forEach body ys s')"
  by (induction xs arbitrary: s) (auto split: sum.splits)

lemma forEach_invariant:
  "forEach body xs s = Inr s' \<Longrightarrow> I s \<Longrightarrow>
   (\<And>x a b. x \<in> set xs \<Longrightarrow> I a \<Longrightarrow> body x a = Inr b \<Longrightarrow> I b) \<Longrightarrow> I s'"
proof (induction xs arbitrary: s)
  case Nil
  then show ?case by simp
next
  case (Cons x xs)
  from Cons.prems(1) obtain a where a: "body x s = Inr a" and rest: "forEach body xs a = Inr s'"
    by (auto split: sum.splits)
  have "I a" using Cons.prems(3)[of x s a] Cons.prems(2) a by simp
  show ?case
  proof (rule Cons.IH[OF rest \<open>I a\<close>])
    fix y u v
    assume "y \<in> set xs" "I u" "body y u = Inr v"
    then show "I v" using Cons.prems(3)[of y u v] by simp
  qed
qed

lemma forEach_established:
  "forEach body xs s = Inr s' \<Longrightarrow> x \<in> set xs \<Longrightarrow> I s \<Longrightarrow>
   (\<And>y a b. y \<in> set xs \<Longrightarrow> I a \<Longrightarrow> body y a = Inr b \<Longrightarrow> I b) \<Longrightarrow>
   (\<And>a b. I a \<Longrightarrow> body x a = Inr b \<Longrightarrow> Q b) \<Longrightarrow>
   (\<And>y a b. y \<in> set xs \<Longrightarrow> I a \<Longrightarrow> Q a \<Longrightarrow> body y a = Inr b \<Longrightarrow> Q b) \<Longrightarrow> Q s'"
proof (induction xs arbitrary: s)
  case Nil
  from Nil.prems(2) show ?case by simp
next
  case (Cons z xs)
  from Cons.prems(1) obtain a where a: "body z s = Inr a" and rest: "forEach body xs a = Inr s'"
    by (auto split: sum.splits)
  have Ia: "I a" using Cons.prems(4)[of z s a] Cons.prems(3) a by simp
  have stepI: "I v" if "y \<in> set xs" "I u" "body y u = Inr v" for y u v
    using Cons.prems(4)[of y u v] that by simp
  have stepQ: "Q v" if "y \<in> set xs" "I u" "Q u" "body y u = Inr v" for y u v
    using Cons.prems(6)[of y u v] that by simp
  show ?case
  proof (cases "x = z")
    case True
    with Cons.prems(5)[of s a] Cons.prems(3) a have Qa: "Q a" by simp
    have "I s' \<and> Q s'"
    proof (rule forEach_invariant[OF rest, of "\<lambda>u. I u \<and> Q u"])
      show "I a \<and> Q a" using Ia Qa by simp
    next
      fix y u v
      assume "y \<in> set xs" "I u \<and> Q u" "body y u = Inr v"
      then show "I v \<and> Q v" using stepI[of y u v] stepQ[of y u v] by simp
    qed
    then show ?thesis by simp
  next
    case False
    with Cons.prems(2) have "x \<in> set xs" by simp
    show ?thesis
    proof (rule Cons.IH[OF rest \<open>x \<in> set xs\<close> Ia])
      fix y u v
      assume "y \<in> set xs" "I u" "body y u = Inr v"
      then show "I v" by (rule stepI)
    next
      fix u v
      assume "I u" "body x u = Inr v"
      then show "Q v" by (rule Cons.prems(5))
    next
      fix y u v
      assume "y \<in> set xs" "I u" "Q u" "body y u = Inr v"
      then show "Q v" by (rule stepQ)
    qed
  qed
qed


lemma apart_same_base [simp]: "apart (b @ p) (b @ q) = apart p q"
  by (simp add: apart_def)

lemma apart_Cons [simp]: "apart (x # p) (y # q) = (x \<noteq> y \<or> apart p q)"
  by (auto simp: apart_def)

lemma apart_Nil [simp]: "\<not> apart [] q" "\<not> apart p []"
  by (simp_all add: apart_def)

lemma remove_at_inside: "remove_at p t = Inr t' \<Longrightarrow> node_at t' (p @ r) = None"
  by (simp add: remove_at_gone node_at_prefix_None)

lemma remove_at_subtree:
  "node_at t b = Some d \<Longrightarrow> r \<noteq> [] \<Longrightarrow> remove_at (b @ r) t = Inr t' \<Longrightarrow>
   \<exists>d'. remove_at r d = Inr d' \<and> node_at t' b = Some d'"
proof (induction b arbitrary: t t')
  case Nil
  then show ?case by simp
next
  case (Cons s b)
  from Cons.prems(1) obtain kids c where t: "t = Dir kids" and c: "map_of kids s = Some c"
    and d: "node_at c b = Some d"
    by (cases t) (auto split: option.splits)
  from Cons.prems(2) obtain x xs where br: "b @ r = x # xs"
    by (cases "b @ r") auto
  with Cons.prems(3) t c obtain c' where c': "remove_at (b @ r) c = Inr c'"
    and t': "t' = Dir (AList.update s c' kids)"
    by (auto split: sum.splits)
  from Cons.IH[OF d Cons.prems(2) c'] t' show ?case
    by (auto simp: AList.update_conv')
qed

lemma remove_at_keeps_dir:
  "node_at t b = Some (Dir kids) \<Longrightarrow> r \<noteq> [] \<Longrightarrow> remove_at (b @ r) t = Inr t' \<Longrightarrow>
   \<exists>kids'. node_at t' b = Some (Dir kids')"
proof -
  assume a: "node_at t b = Some (Dir kids)" "r \<noteq> []" "remove_at (b @ r) t = Inr t'"
  from remove_at_subtree[OF a] obtain d' where d': "remove_at r (Dir kids) = Inr d'"
    and n: "node_at t' b = Some d'" by auto
  have "\<exists>k. d' = Dir k"
  proof (cases r)
    case Nil
    with a(2) show ?thesis by simp
  next
    case (Cons x xs)
    with d' show ?thesis
      by (cases xs) (auto split: option.splits sum.splits)
  qed
  with n show ?thesis by auto
qed

text \<open>A node without anything below it: removing it leaves every other node in place.\<close>

lemma remove_leaf_frame:
  assumes "remove_at p t = Inr t'" and "\<And>r. r \<noteq> [] \<Longrightarrow> node_at t (p @ r) = None"
    and "node_at t q = Some n" and "\<not> prefix q p"
  shows "node_at t' q = Some n"
proof (cases "prefix p q")
  case True
  then obtain r where "q = p @ r" by (auto simp: prefix_def)
  with assms(2)[of r] assms(3,4) show ?thesis by (cases r) auto
next
  case False
  with assms(4) have "apart p q" by (simp add: apart_def)
  from remove_at_frame[OF assms(1) this] assms(3) show ?thesis by simp
qed

subsection \<open>Calls\<close>

lemma call_Inr:
  "call ev f s = Inr s' \<Longrightarrow> f (tree s) = Inr (tree s') \<and> trace s' = trace s @ [ev]"
  by (auto simp: call_def split: sum.splits)

lemma call_ok: "f (tree s) = Inr t \<Longrightarrow> call ev f s = Inr \<lparr>tree = t, trace = trace s @ [ev]\<rparr>"
  by (simp add: call_def)

lemma validate_Inr:
  "validateProjectPackageDirectory p s = Inr s' \<Longrightarrow>
   guard_ok p \<and> tree s' = tree s \<and> trace s' = trace s @ [Validate p]"
  by (auto simp: validateProjectPackageDirectory_def guard_ok_def dest!: call_Inr split: if_splits)

lemma validate_ok:
  "guard_ok p \<Longrightarrow>
   validateProjectPackageDirectory p s = Inr \<lparr>tree = tree s, trace = trace s @ [Validate p]\<rparr>"
  by (simp add: validateProjectPackageDirectory_def guard_ok_def call_def)

lemma validate_fails:
  "\<not> guard_ok p \<Longrightarrow>
   validateProjectPackageDirectory p s = Inl (UnexpectedPath (path_str p), trace s @ [Validate p])"
  by (simp add: validateProjectPackageDirectory_def guard_ok_def call_def)

lemma projectPackagesDir_eq:
  "projectPackagesDir root = root @ [''Assets'', ''Plugins'', ''Packages'']"
  by (simp add: projectPackagesDir_def path_join_def PROJECT_RELATIVE_PACKAGES_PATH_def)

lemma path_str_append:
  "p \<noteq> [] \<Longrightarrow> path_str (b @ p) = concat (map (\<lambda>s. CHR ''/'' # s) b) @ path_str p"
  by (simp add: path_str_def)

lemma guard_ok_inside: "guard_ok (projectPackagesDir root @ r)"
proof -
  have "path_str (projectPackagesDir root @ r)
      = concat (map (\<lambda>s. CHR ''/'' # s) root) @ ''/'' @ PROJECT_RELATIVE_PACKAGES_PATH
        @ concat (map (\<lambda>s. CHR ''/'' # s) r)"
    by (simp add: projectPackagesDir_eq path_str_def PROJECT_RELATIVE_PACKAGES_PATH_def)
  then show ?thesis
    unfolding guard_ok_def str_includes_def sublist_def
    by (metis append.assoc)
qed


lemma existsSync_readJson: "readJsonSync t p = Inr c \<Longrightarrow> existsSync t p"
  by (auto simp: readJsonSync_def existsSync_def split: option.splits)

lemma node_at_child:
  "node_at t p = Some (Dir kids) \<Longrightarrow> node_at t (p @ [k]) = map_of kids k"
  by (simp add: node_at_append split: option.splits)

lemma filter_directories_kids:
  assumes "wf t" "node_at t p = Some (Dir kids)"
  shows "set ks \<subseteq> set kids \<Longrightarrow> filter_directories t p (map fst ks) = Inr (subdirectories ks)"
proof (induction ks)
  case Nil
  then show ?case by (simp add: subdirectories_def)
next
  case (Cons kc ks)
  from assms have wfk: "wf (Dir kids)" using wf_node_at by blast
  from Cons.prems have mem: "kc \<in> set kids" by simp
  with wfk have pl: "plain (fst kc)" by auto
  from wfk mem have "map_of kids (fst kc) = Some (snd kc)"
    by (cases kc) (auto intro: map_of_is_SomeI)
  with assms(2) pl have "statSync t (path_join p [fst kc]) = Inr (snd kc)"
    by (simp add: statSync_def path_join_plain node_at_child)
  with Cons show ?case by (simp add: subdirectories_def)
qed

lemma getDirectories_kids:
  "wf t \<Longrightarrow> node_at t p = Some (Dir kids) \<Longrightarrow> getDirectories t p = Inr (subdirectories kids)"
  using filter_directories_kids[of t p kids kids]
  by (simp add: getDirectories_def readdirSync_def)

lemma getDirectories_fails:
  "(\<forall>kids. node_at t p \<noteq> Some (Dir kids)) \<Longrightarrow> getDirectories t p = Inl IOError"
  by (auto simp: getDirectories_def readdirSync_def split: option.splits node.splits)

lemma listing_flatMap:
  assumes "wf t" "node_at t p = Some (Dir kids)"
  shows "set ks \<subseteq> set kids \<Longrightarrow>
    flatMap (subdirectories ks) (\<lambda>packageDirectory.
        if startsWith packageDirectory ''@''
        then (case getDirectories t (path_join p [packageDirectory]) of
                Inl e \<Rightarrow> Inl e
              | Inr names \<Rightarrow>
                  Inr (map (\<lambda>scopedPackageName. packageDirectory @ ''/'' @ scopedPackageName) names))
        else Inr [packageDirectory])
    = Inr (concat (map entries_of ks))"
proof (induction ks)
  case Nil
  then show ?case by (simp add: subdirectories_def)
next
  case (Cons kc ks)
  from assms have wfk: "wf (Dir kids)" using wf_node_at by blast
  from Cons.prems have mem: "kc \<in> set kids" by simp
  with wfk have pl: "plain (fst kc)" by auto
  from wfk mem have look: "map_of kids (fst kc) = Some (snd kc)"
    by (cases kc) (auto intro: map_of_is_SomeI)
  from Cons have IH: "flatMap (subdirectories ks) (\<lambda>packageDirectory.
        if startsWith packageDirectory ''@''
        then (case getDirectories t (path_join p [packageDirectory]) of
                Inl e \<Rightarrow> Inl e
              | Inr names \<Rightarrow>
                  Inr (map (\<lambda>scopedPackageName. packageDirectory @ ''/'' @ scopedPackageName) names))
        else Inr [packageDirectory])
    = Inr (concat (map entries_of ks))" by simp
  show ?case
  proof (cases "snd kc")
    case (File c)
    then have "subdirectories (kc # ks) = subdirectories ks" "entries_of kc = []"
      by (cases kc; simp add: subdirectories_def)+
    with IH show ?thesis by simp
  next
    case (Dir sub)
    then have sd: "subdirectories (kc # ks) = fst kc # subdirectories ks"
      by (simp add: subdirectories_def)
    from Dir look assms(2) pl have "node_at t (path_join p [fst kc]) = Some (Dir sub)"
      by (simp add: path_join_plain node_at_child)
    from getDirectories_kids[OF assms(1) this]
    have gd: "getDirectories t (path_join p [fst kc]) = Inr (subdirectories sub)" .
    from Dir have "entries_of kc =
      (if startsWith (fst kc) ''@''
       then map (\<lambda>child. fst kc @ ''/'' @ child) (subdirectories sub) else [fst kc])"
      by (cases kc) (simp add: subdirectories_def)
    with sd gd IH show ?thesis by simp
  qed
qed

lemma trace_of_simps [simp]: "trace_of (Inr s) = trace s" "trace_of (Inl (e, tr)) = tr"
  by (simp_all add: trace_of_def)

lemma trace_of_call: "trace_of (call ev f s) = trace s @ [ev]"
  by (simp add: call_def split: sum.splits)

lemma copyIfExistsSync_extends:
  "prefix (trace s) (trace_of (copyIfExistsSync dependencyDir assetsTargetPath file target s))"
  by (simp add: copyIfExistsSync_def Let_def copySync_def trace_of_call)

lemma forEach_extends:
  assumes "\<And>x a. prefix (trace a) (trace_of (body x a))"
  shows "prefix (trace s) (trace_of (forEach body xs s))"
proof (induction xs arbitrary: s)
  case Nil
  show ?case by simp
next
  case (Cons x xs)
  show ?case
  proof (cases "body x s")
    case (Inl e)
    with assms[of s x] show ?thesis by (cases e) simp
  next
    case (Inr a)
    with assms[of s x] Cons[of a] show ?thesis
      by (auto intro: prefix_order.trans)
  qed
qed

lemma trace_of_emptyDirSync: "trace_of (emptyDirSync p s) = trace s @ [EmptyDir p]"
  by (simp add: emptyDirSync_def trace_of_call)

lemma install_extends:
  "prefix (trace s @ [EmptyDir assetsTargetPath]) (trace_of (install dependencyDir assetsTargetPath s))"
proof (cases "emptyDirSync assetsTargetPath s")
  case (Inl e)
  with trace_of_emptyDirSync[of assetsTargetPath s] show ?thesis
    by (cases e) (simp add: install_def)
next
  case (Inr s1)
  with trace_of_emptyDirSync[of assetsTargetPath s]
  have t1: "trace s1 = trace s @ [EmptyDir assetsTargetPath]"
    by simp
  show ?thesis
  proof (cases "copyIfExistsSync dependencyDir assetsTargetPath ''assets'' (Some []) s1")
    case (Inl e)
    with copyIfExistsSync_extends[of s1 dependencyDir assetsTargetPath "''assets''" "Some []"] Inr t1
    show ?thesis by (cases e) (simp add: install_def)
  next
    case s2: (Inr s2)
    with copyIfExistsSync_extends[of s1 dependencyDir assetsTargetPath "''assets''" "Some []"]
    have "prefix (trace s1) (trace s2)" by simp
    moreover have "prefix (trace s2)
        (trace_of (forEach (\<lambda>f. copyIfExistsSync dependencyDir assetsTargetPath f None) extraFiles s2))"
      by (rule forEach_extends) (rule copyIfExistsSync_extends)
    ultimately show ?thesis using Inr s2 t1
      by (auto simp: install_def intro: prefix_order.trans)
  qed
qed

lemma validated_append: "validated (tr @ es) = validated tr \<union> validated es"
  by (induction tr rule: validated.induct) auto

lemma passing_append: "passing (tr @ es) = (passing tr \<and> passing es)"
  by (auto simp: passing_def validated_append)

lemma guarded_from_append:
  "passing tr \<Longrightarrow>
   guarded_from V (tr @ es) = (guarded_from V tr \<and> guarded_from (V \<union> validated tr) es)"
proof (induction tr arbitrary: V)
  case Nil
  show ?case by simp
next
  case (Cons ev tr)
  then have p: "passing tr" by (cases ev) (auto simp: passing_def)
  show ?case
  proof (cases ev)
    case (Validate p)
    with Cons.prems have "guard_ok p" by (simp add: passing_def)
    with Validate Cons.IH[OF p, of "insert p V"] show ?thesis by auto
  qed (use Cons.IH[OF p, of V] in auto)
qed

lemma guarded_step:
  "passing tr \<Longrightarrow> guarded_from {} tr \<Longrightarrow>
   guarded_from {} (tr @ [ev]) = guarded_from (validated tr) [ev]"
  by (simp add: guarded_from_append)

lemma kept_call:
  assumes "guarded_state s" and "guarded_from (validated (trace s)) [ev]"
    and "passing [ev] \<or> (\<forall>t. f (tree s) \<noteq> Inr t) \<and>
          (\<exists>p. ev = Validate p \<and> f (tree s) = Inl (UnexpectedPath (path_str p)))"
    and "\<And>t. f (tree s) = Inr t \<Longrightarrow> wf t"
  shows "guarded_result (call ev f s)"
proof (cases "f (tree s)")
  case (Inl e)
  from assms(1,2) have g: "guarded_from {} (trace s @ [ev])"
    by (simp add: guarded_state_def guarded_step)
  from assms(3) show ?thesis
  proof
    assume "passing [ev]"
    with Inl g assms(1) show ?thesis
      by (simp add: call_def guarded_state_def passing_append)
  next
    assume "(\<forall>t. f (tree s) \<noteq> Inr t) \<and>
          (\<exists>p. ev = Validate p \<and> f (tree s) = Inl (UnexpectedPath (path_str p)))"
    then obtain p where ev: "ev = Validate p" and e: "e = UnexpectedPath (path_str p)"
      using Inl by auto
    show ?thesis
    proof (cases "guard_ok p")
      case True
      with ev have "passing [ev]" by (simp add: passing_def)
      with Inl g assms(1) show ?thesis
        by (simp add: call_def guarded_state_def passing_append)
    next
      case False
      with ev e have "guard_failed e (trace s @ [ev])" by (simp add: guard_failed_def)
      with Inl g show ?thesis by (simp add: call_def)
    qed
  qed
next
  case (Inr t)
  with assms(3) have "passing [ev]" by auto
  with Inr assms show ?thesis
    by (simp add: call_def guarded_state_def passing_append guarded_step)
qed

lemma validated_of_call:
  "call ev f s = Inr s' \<Longrightarrow> validated (trace s') = validated (trace s) \<union> validated [ev]"
  by (auto dest!: call_Inr simp: validated_append)

lemma passing_single [simp]:
  "passing [EmptyDir p]" "passing [Remove p]" "passing [Unlink p]" "passing [IsEmpty p]"
  "passing [Copy a b]" "passing [Validate p] = guard_ok p"
  by (simp_all add: passing_def)

lemma kept_validate: "guarded_state s \<Longrightarrow> guarded_result (validateProjectPackageDirectory p s)"
  unfolding validateProjectPackageDirectory_def
  by (rule kept_call) (auto simp: guard_ok_def guarded_state_def split: if_splits)

lemma empty_or_make_wf: "empty_or_make x = Inr r \<Longrightarrow> wf r"
  by (cases x rule: empty_or_make.cases) auto

lemma kept_emptyDirSync:
  "guarded_state s \<Longrightarrow> p \<in> validated (trace s) \<Longrightarrow> list_all plain p \<Longrightarrow> guarded_result (emptyDirSync p s)"
  unfolding emptyDirSync_def
proof (rule kept_call)
  fix t assume a: "guarded_state s" "list_all plain p" "modify_at p empty_or_make (Some (tree s)) = Inr t"
  show "wf t"
    by (rule modify_at_wf[OF a(3)]) (use a in \<open>auto simp: guarded_state_def empty_or_make_wf\<close>)
qed auto

lemma copy_tree_wf:
  assumes "copy_tree src dst t = Inr t'" "wf t" "list_all plain dst"
  shows "wf t'"
proof -
  from assms(1) obtain n where n: "node_at t src = Some n"
    and m: "modify_at dst (merge_node n) (Some t) = Inr t'"
    by (auto simp: copy_tree_def split: option.splits if_splits)
  from wf_node_at[OF assms(2) n] have "wf n" by simp
  show ?thesis
    by (rule modify_at_wf[OF m]) (use assms \<open>wf n\<close> in \<open>auto intro: merge_wf(1)\<close>)
qed

lemma kept_copySync: "guarded_state s \<Longrightarrow> list_all plain dst \<Longrightarrow> guarded_result (copySync src dst s)"
  unfolding copySync_def
  by (rule kept_call) (auto simp: guarded_state_def intro: copy_tree_wf)

lemma kept_removeSync: "guarded_state s \<Longrightarrow> p \<in> validated (trace s) \<Longrightarrow> guarded_result (removeSync p s)"
  unfolding removeSync_def
  by (rule kept_call) (auto simp: guarded_state_def intro: remove_at_wf)

lemma unlink_file_wf: "unlink_file p t = Inr t' \<Longrightarrow> wf t \<Longrightarrow> wf t'"
  by (auto simp: unlink_file_def split: option.splits node.splits intro: remove_at_wf)

lemma kept_unlinkSync:
  "guarded_state s \<Longrightarrow> q \<in> validated (trace s) \<Longrightarrow> path_str p = path_str q @ ''.meta'' \<Longrightarrow> guard_ok p \<Longrightarrow>
   guarded_result (unlinkSync p s)"
  unfolding unlinkSync_def
  by (rule kept_call) (auto simp: guarded_state_def intro: unlink_file_wf)

lemma guarded_state_isEmptySync:
  "guarded_state s \<Longrightarrow> p \<in> validated (trace s) \<Longrightarrow> guarded_state (snd (isEmptySync p s))"
  by (simp add: isEmptySync_def guarded_state_def passing_append guarded_step)

lemma kept_forEach:
  assumes "\<And>x a. x \<in> set xs \<Longrightarrow> guarded_state a \<Longrightarrow> guarded_result (body x a)"
  shows "guarded_state s \<Longrightarrow> guarded_result (forEach body xs s)"
  using assms
proof (induction xs arbitrary: s)
  case Nil
  then show ?case by simp
next
  case (Cons x xs)
  have step: "guarded_result (body x s)" using Cons.prems(2)[of x s] Cons.prems(1) by simp
  show ?case
  proof (cases "body x s")
    case (Inl e)
    with step show ?thesis by simp
  next
    case (Inr a)
    with step have "guarded_state a" by simp
    have "guarded_result (forEach body xs a)"
    proof (rule Cons.IH[OF \<open>guarded_state a\<close>])
      fix y b assume "y \<in> set xs" "guarded_state b"
      then show "guarded_result (body y b)" using Cons.prems(2)[of y b] by simp
    qed
    with Inr show ?thesis by simp
  qed
qed

lemma kept_bind:
  assumes "guarded_result m" and "\<And>a. m = Inr a \<Longrightarrow> guarded_state a \<Longrightarrow> guarded_result (k a)"
  shows "guarded_result (case m of Inl e \<Rightarrow> Inl e | Inr a \<Rightarrow> k a)"
  using assms by (cases m) auto

lemma kept_abort: "guarded_state s \<Longrightarrow> guarded_result (Inl (e, trace s))"
  by (simp add: guarded_state_def)

subsection \<open>Paths of named entries\<close>

lemma plain_segments_resolve:
  assumes "list_all plain (split_sep e)"
  shows "path_resolve base e = base @ split_sep e"
proof -
  have "e \<noteq> [] \<and> hd e \<noteq> CHR ''/''"
  proof (cases e)
    case Nil
    with assms show ?thesis by (simp add: plain_def)
  next
    case (Cons c cs)
    with assms show ?thesis by (auto simp: plain_def)
  qed
  with assms show ?thesis
    by (simp add: path_resolve_def normalize_onto_plain)
qed

lemma plain_meta: "plain l \<Longrightarrow> plain (l @ ''.meta'')"
  by (auto simp: plain_def)

lemma split_sep_meta:
  "split_sep (e @ ''.meta'') = butlast (split_sep e) @ [last (split_sep e) @ ''.meta'']"
  by (rule split_sep_append_last) simp

lemma plain_segments_meta:
  assumes "list_all plain (split_sep e)"
  shows "list_all plain (split_sep (e @ ''.meta''))"
proof -
  have ne: "split_sep e \<noteq> []" by (rule split_sep_nonempty)
  with assms have "plain (last (split_sep e))"
    by (simp add: list_all_iff)
  with assms show ?thesis
    by (simp add: split_sep_meta list_all_butlast plain_meta)
qed

lemma path_str_snoc: "path_str (p @ [l @ m]) = path_str (p @ [l]) @ m"
  by (simp add: path_str_def)

lemma meta_path_str:
  assumes "list_all plain (split_sep e)"
  shows "path_str (path_resolve base (e @ ''.meta'')) = path_str (path_resolve base e) @ ''.meta''"
proof -
  have ne: "split_sep e \<noteq> []" by (rule split_sep_nonempty)
  have "path_resolve base (e @ ''.meta'') = (base @ butlast (split_sep e)) @ [last (split_sep e) @ ''.meta'']"
    using plain_segments_resolve[OF plain_segments_meta[OF assms]] by (simp add: split_sep_meta)
  moreover have "path_resolve base e = (base @ butlast (split_sep e)) @ [last (split_sep e)]"
    using plain_segments_resolve[OF assms] ne by simp
  ultimately show ?thesis
    by (simp only: path_str_snoc)
qed

lemma package_name_segments: "package_name e \<Longrightarrow> list_all plain (split_sep e)"
  by (auto simp: package_name_def split: list.splits)

lemma plain_single: "plain x \<Longrightarrow> split_sep x = [x]"
  by (simp add: plain_def split_sep_no_sep)

lemma split_sep_scoped: "plain a \<Longrightarrow> plain b \<Longrightarrow> split_sep (a @ CHR ''/'' # b) = [a, b]"
  by (simp add: split_sep_append plain_single)

subsection \<open>The loop bodies keep the calls guarded\<close>

lemma kept_copyIfExistsSync:
  "guarded_state s \<Longrightarrow> list_all plain assetsTargetPath \<Longrightarrow>
   guarded_result (copyIfExistsSync dependencyDir assetsTargetPath file target s)"
  by (simp add: copyIfExistsSync_def Let_def kept_copySync path_join_keeps_plain)

lemma kept_install:
  assumes "guarded_state s" "assetsTargetPath \<in> validated (trace s)" "list_all plain assetsTargetPath"
  shows "guarded_result (install dependencyDir assetsTargetPath s)"
  unfolding install_def
proof (rule kept_bind)
  show "guarded_result (emptyDirSync assetsTargetPath s)"
    using assms by (rule kept_emptyDirSync)
next
  fix a assume "guarded_state a"
  show "guarded_result (case copyIfExistsSync dependencyDir assetsTargetPath ''assets'' (Some []) a of
          Inl e \<Rightarrow> Inl e
        | Inr s2 \<Rightarrow> forEach (\<lambda>f. copyIfExistsSync dependencyDir assetsTargetPath f None) extraFiles s2)"
  proof (rule kept_bind)
    show "guarded_result (copyIfExistsSync dependencyDir assetsTargetPath ''assets'' (Some []) a)"
      using \<open>guarded_state a\<close> assms(3) by (rule kept_copyIfExistsSync)
  next
    fix b assume "guarded_state b"
    then show "guarded_result (forEach (\<lambda>f. copyIfExistsSync dependencyDir assetsTargetPath f None) extraFiles b)"
      by (rule kept_forEach[rotated]) (simp add: kept_copyIfExistsSync assms(3))
  qed
qed

lemma validate_adds:
  "validateProjectPackageDirectory p s = Inr a \<Longrightarrow> p \<in> validated (trace a)"
  by (auto dest!: validate_Inr simp: validated_append)

lemma kept_syncDependency:
  assumes "guarded_state s" "list_all plain root"
  shows "guarded_result (syncDependency root name s)"
proof -
  let ?dest = "path_resolve (projectPackagesDir root) name"
  have pl: "list_all plain ?dest"
    using assms(2) by (intro path_resolve_keeps_plain) (simp add: projectPackagesDir_def path_join_keeps_plain)
  have after: "guarded_result (if existsSync (tree a) (path_join ?dest [''package.json'']) then
             (case readJsonSync (tree a) (path_join ?dest [''package.json'']) of
                Inl e \<Rightarrow> Inl (e, trace a)
              | Inr assetsTargetConfig \<Rightarrow>
                  if cfg_version c = cfg_version assetsTargetConfig then Inr a
                  else install d ?dest a)
           else install d ?dest a)"
    if "guarded_state a" "?dest \<in> validated (trace a)" for a c d
    using that pl by (auto split: sum.splits simp: kept_install kept_abort simp del: guarded_result.simps(2))
  have guarded: "guarded_result (case validateProjectPackageDirectory ?dest s of
          Inl e \<Rightarrow> Inl e
        | Inr a \<Rightarrow> (if existsSync (tree a) (path_join ?dest [''package.json'']) then
             (case readJsonSync (tree a) (path_join ?dest [''package.json'']) of
                Inl e \<Rightarrow> Inl (e, trace a)
              | Inr assetsTargetConfig \<Rightarrow>
                  if cfg_version c = cfg_version assetsTargetConfig then Inr a
                  else install d ?dest a)
           else install d ?dest a))" for c d
  proof (rule kept_bind)
    show "guarded_result (validateProjectPackageDirectory ?dest s)"
      using assms(1) by (rule kept_validate)
  next
    fix a assume a: "validateProjectPackageDirectory ?dest s = Inr a" "guarded_state a"
    from a(2) validate_adds[OF a(1)]
    show "guarded_result (if existsSync (tree a) (path_join ?dest [''package.json'']) then
             (case readJsonSync (tree a) (path_join ?dest [''package.json'']) of
                Inl e \<Rightarrow> Inl (e, trace a)
              | Inr assetsTargetConfig \<Rightarrow>
                  if cfg_version c = cfg_version assetsTargetConfig then Inr a
                  else install d ?dest a)
           else install d ?dest a)"
      by (rule after)
  qed
  show ?thesis
  proof (cases "readJsonSync (tree s) (path_join (path_join root [''node_modules'', name]) [''package.json''])")
    case (Inl e)
    with assms(1) show ?thesis
      by (simp add: syncDependency_def Let_def kept_abort del: guarded_result.simps(2))
  next
    case (Inr cfg)
    show ?thesis
    proof (cases "specialKeyword \<in> set (case cfg_keywords cfg of None \<Rightarrow> [] | Some ks \<Rightarrow> ks)")
      case False
      with Inr assms(1) show ?thesis
        by (simp add: syncDependency_def Let_def)
    next
      case True
      with Inr guarded[of cfg "path_join root [''node_modules'', name]"] show ?thesis
        by (auto simp add: syncDependency_def Let_def cong: sum.case_cong)
    qed
  qed
qed

lemma kept_removeRedundant:
  assumes "guarded_state s" "list_all plain (split_sep e)"
  shows "guarded_result (removeRedundant root e s)"
proof -
  let ?dir = "path_resolve (projectPackagesDir root) e"
  let ?meta = "path_resolve (projectPackagesDir root) (e @ ''.meta'')"
  have ms: "path_str ?meta = path_str ?dir @ ''.meta''"
    using assms(2) by (rule meta_path_str)
  have mg: "guard_ok ?meta"
    using plain_segments_resolve[OF plain_segments_meta[OF assms(2)]] by (simp add: guard_ok_inside)
  show ?thesis
    unfolding removeRedundant_def Let_def
  proof (rule kept_bind)
    show "guarded_result (validateProjectPackageDirectory ?dir s)"
      using assms(1) by (rule kept_validate)
  next
    fix a assume a: "validateProjectPackageDirectory ?dir s = Inr a" "guarded_state a"
    then have va: "?dir \<in> validated (trace a)" by (simp add: validate_adds)
    show "guarded_result (case (if existsSync (tree a) ?dir then removeSync ?dir a else Inr a) of
            Inl e \<Rightarrow> Inl e
          | Inr s2 \<Rightarrow> if existsSync (tree s2) ?meta then unlinkSync ?meta s2 else Inr s2)"
    proof (rule kept_bind)
      show "guarded_result (if existsSync (tree a) ?dir then removeSync ?dir a else Inr a)"
        using a(2) va by (simp add: kept_removeSync)
    next
      fix b assume b: "(if existsSync (tree a) ?dir then removeSync ?dir a else Inr a) = Inr b" "guarded_state b"
      then have "?dir \<in> validated (trace b)"
        using va by (auto split: if_splits simp: removeSync_def dest!: validated_of_call)
      with b(2) ms mg show "guarded_result (if existsSync (tree b) ?meta then unlinkSync ?meta b else Inr b)"
        by (simp add: kept_unlinkSync)
    qed
  qed
qed

lemma kept_pruneScope:
  assumes "guarded_state s" "plain x"
  shows "guarded_result (pruneScope root x s)"
proof -
  let ?dir = "path_resolve (projectPackagesDir root) x"
  let ?meta = "path_resolve (projectPackagesDir root) (x @ ''.meta'')"
  have seg: "list_all plain (split_sep x)"
    using assms(2) by (simp add: plain_single)
  have ms: "path_str ?meta = path_str ?dir @ ''.meta''"
    using seg by (rule meta_path_str)
  have mg: "guard_ok ?meta"
    using plain_segments_resolve[OF plain_segments_meta[OF seg]] by (simp add: guard_ok_inside)
  show ?thesis
    unfolding pruneScope_def Let_def
  proof (rule kept_bind)
    show "guarded_result (validateProjectPackageDirectory ?dir s)"
      using assms(1) by (rule kept_validate)
  next
    fix a assume a: "validateProjectPackageDirectory ?dir s = Inr a" "guarded_state a"
    then have va: "?dir \<in> validated (trace a)" by (simp add: validate_adds)
    let ?b = "snd (isEmptySync ?dir a)"
    have ib: "guarded_state ?b" using a(2) va by (rule guarded_state_isEmptySync)
    have vb: "?dir \<in> validated (trace ?b)"
      using va by (simp add: isEmptySync_def validated_append)
    have "guarded_result (case removeSync ?dir ?b of
            Inl e \<Rightarrow> Inl e
          | Inr s3 \<Rightarrow> if existsSync (tree s3) ?meta then unlinkSync ?meta s3 else Inr s3)"
    proof (rule kept_bind)
      show "guarded_result (removeSync ?dir ?b)" using ib vb by (rule kept_removeSync)
    next
      fix c assume c: "removeSync ?dir ?b = Inr c" "guarded_state c"
      then have "?dir \<in> validated (trace c)"
        using vb by (auto simp: removeSync_def dest!: validated_of_call)
      with c(2) ms mg show "guarded_result (if existsSync (tree c) ?meta then unlinkSync ?meta c else Inr c)"
        by (simp add: kept_unlinkSync)
    qed
    with ib show "guarded_result (case isEmptySync ?dir a of
            (True, s2) \<Rightarrow>
              (case removeSync ?dir s2 of
                 Inl e \<Rightarrow> Inl e
               | Inr s3 \<Rightarrow> if existsSync (tree s3) ?meta then unlinkSync ?meta s3 else Inr s3)
          | (False, s2) \<Rightarrow> Inr s2)"
      by (cases "isEmptySync ?dir a") (auto split: bool.splits)
  qed
qed

subsection \<open>Names produced by the listings\<close>

lemma getDirectories_Inr:
  "getDirectories t p = Inr ds \<Longrightarrow> \<exists>kids. node_at t p = Some (Dir kids)"
  by (auto simp: getDirectories_def readdirSync_def split: option.splits node.splits sum.splits)

lemma listing_of_kids:
  "wf t \<Longrightarrow> node_at t (projectPackagesDir root) = Some (Dir kids) \<Longrightarrow>
   getProjectPackageListing root t = Inr (concat (map entries_of kids))"
  using listing_flatMap[of t "projectPackagesDir root" kids kids]
  by (simp add: getProjectPackageListing_def getDirectories_kids)

lemma subdirectories_mem:
  "x \<in> set (subdirectories kids) \<longleftrightarrow> (\<exists>sub. (x, Dir sub) \<in> set kids)"
proof
  assume "x \<in> set (subdirectories kids)"
  then obtain c where "(x, c) \<in> set kids" "is_dir c"
    by (auto simp: subdirectories_def)
  then show "\<exists>sub. (x, Dir sub) \<in> set kids" by (cases c) auto
next
  assume "\<exists>sub. (x, Dir sub) \<in> set kids"
  then show "x \<in> set (subdirectories kids)"
    by (force simp: subdirectories_def)
qed

lemma entries_of_mem:
  "e \<in> set (entries_of (name, c)) \<longleftrightarrow>
   (\<exists>sub. c = Dir sub \<and>
      (if startsWith name ''@'' then \<exists>child \<in> set (subdirectories sub). e = name @ ''/'' @ child
       else e = name))"
proof (cases c)
  case (File x)
  then show ?thesis by simp
next
  case (Dir sub)
  have "entries_of (name, Dir sub) =
      (if startsWith name ''@'' then map (\<lambda>child. name @ ''/'' @ child) (subdirectories sub)
       else [name])"
    by (simp add: subdirectories_def)
  with Dir show ?thesis by (auto simp del: entries_of.simps)
qed

lemma entries_package_names:
  assumes "wf (Dir kids)" "e \<in> set (concat (map entries_of kids))"
  shows "package_name e"
proof -
  from assms(2) obtain name c where kc: "(name, c) \<in> set kids" and e: "e \<in> set (entries_of (name, c))"
    by auto
  from assms(1) kc have pn: "plain name" and wc: "wf c" by auto
  note e' = e[unfolded entries_of_mem]
  from e' obtain sub where c: "c = Dir sub" by blast
  show ?thesis
  proof (cases "startsWith name ''@''")
    case True
    with e' c obtain child where ch: "child \<in> set (subdirectories sub)" and ee: "e = name @ ''/'' @ child"
      by auto
    from ch wc c have "plain child" by (auto simp: subdirectories_mem)
    with pn True ee show ?thesis
      by (simp add: package_name_def split_sep_scoped)
  next
    case False
    with e' c have "e = name" by auto
    with pn False show ?thesis
      by (simp add: package_name_def plain_single)
  qed
qed

lemma listing_package_names:
  assumes "wf t" "getProjectPackageListing root t = Inr L" "e \<in> set L"
  shows "package_name e"
proof -
  from assms(2) obtain ds where "getDirectories t (projectPackagesDir root) = Inr ds"
    by (auto simp: getProjectPackageListing_def split: sum.splits)
  then obtain kids where k: "node_at t (projectPackagesDir root) = Some (Dir kids)"
    using getDirectories_Inr by blast
  from listing_of_kids[OF assms(1) k] assms(2) have "L = concat (map entries_of kids)" by simp
  moreover from wf_node_at[OF assms(1) k] have "wf (Dir kids)" by simp
  ultimately show ?thesis using assms(3) entries_package_names by blast
qed

lemma scopes_of_kids:
  "wf t \<Longrightarrow> node_at t (projectPackagesDir root) = Some (Dir kids) \<Longrightarrow>
   getProjectPackageScopes root t
     = Inr (filter (\<lambda>packageDirectory. startsWith packageDirectory ''@'') (subdirectories kids))"
  by (simp add: getProjectPackageScopes_def getDirectories_kids)

lemma scopes_plain:
  assumes "wf t" "getProjectPackageScopes root t = Inr xs" "x \<in> set xs"
  shows "plain x \<and> startsWith x ''@''"
proof -
  from assms(2) obtain ds where "getDirectories t (projectPackagesDir root) = Inr ds"
    by (auto simp: getProjectPackageScopes_def split: sum.splits)
  then obtain kids where k: "node_at t (projectPackagesDir root) = Some (Dir kids)"
    using getDirectories_Inr by blast
  from scopes_of_kids[OF assms(1) k] assms(2,3)
  have x: "x \<in> set (subdirectories kids)" "startsWith x ''@''" by auto
  from wf_node_at[OF assms(1) k] have "wf (Dir kids)" by simp
  with x show ?thesis by (auto simp: subdirectories_mem)
qed

subsection \<open>The phases keep the calls guarded\<close>

lemma kept_phase1: "guarded_state s \<Longrightarrow> list_all plain root \<Longrightarrow> guarded_result (phase1 root deps s)"
  unfolding phase1_def
  by (rule kept_forEach) (simp_all add: kept_syncDependency)

lemma kept_phase2:
  assumes "guarded_state s"
  shows "guarded_result (phase2 root deps s)"
proof (cases "getProjectPackageListing root (tree s)")
  case (Inl e)
  with assms show ?thesis
    by (simp add: phase2_def kept_abort del: guarded_result.simps(2))
next
  case (Inr L)
  have "guarded_result (forEach (removeRedundant root) (filter (\<lambda>packageName. packageName \<notin> set deps) L) s)"
  proof (rule kept_forEach[OF _ assms])
    fix x a assume x: "x \<in> set (filter (\<lambda>packageName. packageName \<notin> set deps) L)" and a: "guarded_state a"
    from assms have "wf (tree s)" by (simp add: guarded_state_def)
    from listing_package_names[OF this Inr] x have "package_name x" by simp
    then show "guarded_result (removeRedundant root x a)"
      using a by (intro kept_removeRedundant package_name_segments)
  qed
  with Inr show ?thesis by (simp add: phase2_def Let_def)
qed

lemma kept_phase3:
  assumes "guarded_state s"
  shows "guarded_result (phase3 root s)"
proof (cases "getProjectPackageScopes root (tree s)")
  case (Inl e)
  with assms show ?thesis
    by (simp add: phase3_def kept_abort del: guarded_result.simps(2))
next
  case (Inr xs)
  have "guarded_result (forEach (pruneScope root) xs s)"
  proof (rule kept_forEach[OF _ assms])
    fix x a assume x: "x \<in> set xs" and a: "guarded_state a"
    from assms have "wf (tree s)" by (simp add: guarded_state_def)
    from scopes_plain[OF this Inr x] a show "guarded_result (pruneScope root x a)"
      by (intro kept_pruneScope) simp_all
  qed
  with Inr show ?thesis by (simp add: phase3_def)
qed

lemma readJson_path_plain:
  assumes "wf t" "readJsonSync t (path_join root [''package.json'']) = Inr c"
  shows "list_all plain root"
proof -
  have "path_join root [''package.json''] = root @ [''package.json'']"
    by (rule path_join_plain) (simp add: plain_def)
  with assms(2) obtain n where "node_at t (root @ [''package.json'']) = Some n"
    by (auto simp: readJsonSync_def split: option.splits)
  from wf_node_at[OF assms(1) this] show ?thesis by simp
qed

lemma kept_sync:
  assumes "guarded_state s"
  shows "guarded_result (sync root s)"
proof (cases "readJsonSync (tree s) (path_join root [''package.json''])")
  case (Inl e)
  with assms show ?thesis
    by (simp add: sync_def kept_abort del: guarded_result.simps(2))
next
  case (Inr projectConfig)
  from assms have "wf (tree s)" by (simp add: guarded_state_def)
  from readJson_path_plain[OF this Inr] have pl: "list_all plain root" .
  let ?deps = "case cfg_dependencies projectConfig of None \<Rightarrow> [] | Some ds \<Rightarrow> ds"
  have "guarded_result (case phase1 root ?deps s of
          Inl e \<Rightarrow> Inl e
        | Inr s1 \<Rightarrow> (case phase2 root ?deps s1 of Inl e \<Rightarrow> Inl e | Inr s2 \<Rightarrow> phase3 root s2))"
  proof (rule kept_bind)
    show "guarded_result (phase1 root ?deps s)" using assms pl by (rule kept_phase1)
  next
    fix a assume "guarded_state a"
    show "guarded_result (case phase2 root ?deps a of Inl e \<Rightarrow> Inl e | Inr s2 \<Rightarrow> phase3 root s2)"
      by (rule kept_bind) (simp_all add: kept_phase2 kept_phase3 \<open>guarded_state a\<close>)
  qed
  with Inr show ?thesis by (simp add: sync_def Let_def)
qed

lemma kept_safe: "guarded_result r \<Longrightarrow> safe_outcome r"
  by (cases r rule: safe_outcome.cases) (auto simp: guarded_state_def)

lemma join_split: "join_sep (split_sep s) = s"
proof (induction s)
  case Nil
  show ?case by simp
next
  case (Cons c s)
  obtain w ws where ws: "split_sep s = w # ws"
    using split_sep_nonempty[of s] by (cases "split_sep s") auto
  with Cons show ?case by (cases ws) auto
qed

lemma split_sep_inj: "split_sep a = split_sep b \<Longrightarrow> a = b"
  by (metis join_split)

lemma package_name_cases:
  assumes "package_name e"
  obtains (flat) "split_sep e = [e]" "plain e" "\<not> startsWith e ''@''"
  | (scoped) scope child where "split_sep e = [scope, child]" "e = scope @ CHR ''/'' # child"
      "plain scope" "plain child" "startsWith scope ''@''"
proof -
  from assms consider x where "split_sep e = [x]" "plain x" "\<not> startsWith x ''@''"
    | scope child where "split_sep e = [scope, child]" "plain scope" "plain child" "startsWith scope ''@''"
    by (auto simp: package_name_def split: list.splits)
  then show thesis
  proof cases
    case 1
    from 1(1) have "e = x" using join_split[of e] by simp
    with 1 flat show ?thesis by simp
  next
    case 2
    from 2(1) have "e = scope @ CHR ''/'' # child" using join_split[of e] by simp
    with 2 scoped show ?thesis by simp
  qed
qed

lemma startsWith_at: "startsWith x ''@'' \<longleftrightarrow> (\<exists>r. x = CHR ''@'' # r)"
  by (cases x) (auto simp: startsWith_def)

lemma startsWith_meta: "x \<noteq> [] \<Longrightarrow> startsWith (x @ ''.meta'') ''@'' = startsWith x ''@''"
  by (cases x) (auto simp: startsWith_def)

lemma plain_nonempty: "plain x \<Longrightarrow> x \<noteq> []"
  by (simp add: plain_def)

lemma meta_resolve:
  "list_all plain (split_sep e) \<Longrightarrow> path_resolve base (e @ ''.meta'') = base @ meta_segments e"
  using plain_segments_resolve[OF plain_segments_meta, of e base]
  by (simp add: split_sep_meta meta_segments_def)

lemma package_dirs_apart:
  assumes "package_name e" "package_name d" "e \<noteq> d"
  shows "apart (split_sep e) (split_sep d)"
  using assms(1)
proof (cases rule: package_name_cases)
  case flat
  from assms(2) show ?thesis
  proof (cases rule: package_name_cases)
    case flat': flat
    with flat assms(3) show ?thesis by simp
  next
    case (scoped scope child)
    with flat show ?thesis by auto
  qed
next
  case (scoped scope child)
  from assms(2) show ?thesis
  proof (cases rule: package_name_cases)
    case flat
    with scoped show ?thesis by auto
  next
    case scoped': (scoped scope' child')
    with scoped assms(3) show ?thesis by auto
  qed
qed

lemma package_meta_apart:
  assumes "package_name e" "package_name d"
  shows "meta_segments e = split_sep d \<or> apart (meta_segments e) (split_sep d)"
  using assms(1)
proof (cases rule: package_name_cases)
  case flat
  from assms(2) show ?thesis
  proof (cases rule: package_name_cases)
    case flat': flat
    with flat show ?thesis by (simp add: meta_segments_def)
  next
    case (scoped scope child)
    with flat show ?thesis
      using startsWith_meta[of e] by (auto simp: meta_segments_def plain_nonempty)
  qed
next
  case (scoped scope child)
  from assms(2) show ?thesis
  proof (cases rule: package_name_cases)
    case flat
    with scoped show ?thesis by (auto simp: meta_segments_def)
  next
    case scoped': (scoped scope' child')
    with scoped show ?thesis by (auto simp: meta_segments_def)
  qed
qed

subsection \<open>One removal of phase 2\<close>

lemma removeSync_Inr:
  "removeSync p s = Inr s' \<Longrightarrow> remove_at p (tree s) = Inr (tree s') \<and> trace s' = trace s @ [Remove p]"
  by (auto simp: removeSync_def dest!: call_Inr)

lemma unlinkSync_Inr:
  "unlinkSync p s = Inr s' \<Longrightarrow>
   (\<exists>c. node_at (tree s) p = Some (File c)) \<and> remove_at p (tree s) = Inr (tree s')
   \<and> trace s' = trace s @ [Unlink p]"
  by (auto simp: unlinkSync_def unlink_file_def dest!: call_Inr split: option.splits node.splits)

lemma removeRedundant_Inr:
  assumes "removeRedundant root e s = Inr s'" "list_all plain (split_sep e)"
  shows "deleted_pair (projectPackagesDir root @ split_sep e) (projectPackagesDir root @ meta_segments e)
           (tree s) (tree s')"
proof -
  let ?dir = "projectPackagesDir root @ split_sep e"
  let ?meta = "projectPackagesDir root @ meta_segments e"
  have d: "path_resolve (projectPackagesDir root) e = ?dir"
    using assms(2) by (rule plain_segments_resolve)
  have m: "path_resolve (projectPackagesDir root) (e @ ''.meta'') = ?meta"
    using assms(2) by (rule meta_resolve)
  from assms(1) obtain s1 s2 where s1: "validateProjectPackageDirectory ?dir s = Inr s1"
    and s2: "(if existsSync (tree s1) ?dir then removeSync ?dir s1 else Inr s1) = Inr s2"
    and s3: "(if existsSync (tree s2) ?meta then unlinkSync ?meta s2 else Inr s2) = Inr s'"
    unfolding removeRedundant_def Let_def d m by (auto split: sum.splits)
  from validate_Inr[OF s1] have t1: "tree s1 = tree s" by simp
  from s2 t1 have a: "remove_at ?dir (tree s) = Inr (tree s2) \<or> node_at (tree s) ?dir = None \<and> tree s2 = tree s"
    by (auto simp: existsSync_def split: if_splits dest!: removeSync_Inr)
  from s3 have b: "(\<exists>c. node_at (tree s2) ?meta = Some (File c)) \<and> remove_at ?meta (tree s2) = Inr (tree s')
      \<or> node_at (tree s2) ?meta = None \<and> tree s' = tree s2"
    by (auto simp: existsSync_def split: if_splits dest!: unlinkSync_Inr)
  from a b show ?thesis unfolding deleted_pair_def by blast
qed

lemma deleted_pair_gone:
  assumes "deleted_pair dir meta t t'"
  shows "node_at t' (dir @ r) = None" "node_at t' (meta @ r) = None"
proof -
  from assms obtain ta where a: "remove_at dir t = Inr ta \<or> node_at t dir = None \<and> ta = t"
    and b: "(\<exists>c. node_at ta meta = Some (File c)) \<and> remove_at meta ta = Inr t'
              \<or> node_at ta meta = None \<and> t' = ta"
    unfolding deleted_pair_def by blast
  from a have "node_at ta dir = None" by (auto simp: remove_at_gone)
  have "node_at t' dir = None"
  proof (cases "node_at t' dir")
    case (Some n')
    with b obtain n where "node_at ta dir = Some n"
      using remove_at_shrinks[of meta ta t' dir n'] by auto
    with \<open>node_at ta dir = None\<close> show ?thesis by simp
  qed simp
  then show "node_at t' (dir @ r) = None" by (rule node_at_prefix_None)
  from b have "node_at t' meta = None" by (auto simp: remove_at_gone)
  then show "node_at t' (meta @ r) = None" by (rule node_at_prefix_None)
qed

lemma deleted_pair_shrinks:
  assumes "deleted_pair dir meta t t'" "node_at t' q = Some n'"
  shows "\<exists>n. node_at t q = Some n \<and> is_dir n = is_dir n'"
proof -
  from assms obtain ta where a: "remove_at dir t = Inr ta \<or> node_at t dir = None \<and> ta = t"
    and b: "(\<exists>c. node_at ta meta = Some (File c)) \<and> remove_at meta ta = Inr t'
              \<or> node_at ta meta = None \<and> t' = ta"
    unfolding deleted_pair_def by blast
  from b assms(2) obtain na where na: "node_at ta q = Some na" "is_dir na = is_dir n'"
    by (auto dest: remove_at_shrinks)
  with a show ?thesis
    by (auto dest: remove_at_shrinks)
qed

lemma deleted_pair_frame:
  assumes "deleted_pair dir meta t t'" "apart dir q" "apart meta q"
  shows "node_at t' q = node_at t q"
proof -
  from assms obtain ta where a: "remove_at dir t = Inr ta \<or> node_at t dir = None \<and> ta = t"
    and b: "(\<exists>c. node_at ta meta = Some (File c)) \<and> remove_at meta ta = Inr t'
              \<or> node_at ta meta = None \<and> t' = ta"
    unfolding deleted_pair_def by blast
  from a assms(2) have "node_at ta q = node_at t q" by (auto simp: remove_at_frame)
  moreover from b assms(3) have "node_at t' q = node_at ta q" by (auto simp: remove_at_frame)
  ultimately show ?thesis by simp
qed

lemma deleted_pair_keeps_dir:
  assumes "deleted_pair dir meta t t'" "apart dir q" "q = meta \<or> apart meta q"
    and "node_at t q = Some (Dir k)"
  shows "node_at t' q = Some (Dir k)"
proof -
  from assms obtain ta where a: "remove_at dir t = Inr ta \<or> node_at t dir = None \<and> ta = t"
    and b: "(\<exists>c. node_at ta meta = Some (File c)) \<and> remove_at meta ta = Inr t'
              \<or> node_at ta meta = None \<and> t' = ta"
    unfolding deleted_pair_def by blast
  from a assms(2,4) have q: "node_at ta q = Some (Dir k)" by (auto simp: remove_at_frame)
  from assms(3) show ?thesis
  proof
    assume "q = meta"
    with q b show ?thesis by auto
  next
    assume "apart meta q"
    with b q show ?thesis by (auto simp: remove_at_frame)
  qed
qed

lemma deleted_pair_wf: "deleted_pair dir meta t t' \<Longrightarrow> wf t \<Longrightarrow> wf t'"
  unfolding deleted_pair_def by (auto dest: remove_at_wf)

lemma deleted_pair_base:
  assumes "deleted_pair (b @ r) (b @ r') t t'" "r \<noteq> []" "r' \<noteq> []" "node_at t b = Some (Dir k)"
  shows "\<exists>k'. node_at t' b = Some (Dir k')"
proof -
  from assms(1) obtain ta where a: "remove_at (b @ r) t = Inr ta \<or> node_at t (b @ r) = None \<and> ta = t"
    and c: "(\<exists>c. node_at ta (b @ r') = Some (File c)) \<and> remove_at (b @ r') ta = Inr t'
              \<or> node_at ta (b @ r') = None \<and> t' = ta"
    unfolding deleted_pair_def by blast
  from a assms(2,4) obtain ka where ka: "node_at ta b = Some (Dir ka)"
    by (auto dest: remove_at_keeps_dir)
  with c assms(3) show ?thesis
    by (auto dest: remove_at_keeps_dir)
qed

subsection \<open>The listing in terms of the tree\<close>

lemma map_of_kids:
  "wf (Dir kids) \<Longrightarrow> (map_of kids x = Some c) = ((x, c) \<in> set kids)"
  by (auto intro: map_of_is_SomeI dest: map_of_SomeD)

lemma wf_child: "wf (Dir kids) \<Longrightarrow> (x, c) \<in> set kids \<Longrightarrow> plain x \<and> wf c"
  by fastforce

lemma listing_mem:
  assumes "wf t" "node_at t pk = Some (Dir kids)"
  shows "e \<in> set (concat (map entries_of kids)) \<longleftrightarrow>
         package_name e \<and> (\<exists>k. node_at t (pk @ split_sep e) = Some (Dir k))"
proof
  from wf_node_at[OF assms] have wk: "wf (Dir kids)" by simp
  assume e: "e \<in> set (concat (map entries_of kids))"
  with wk have pn: "package_name e" by (rule entries_package_names)
  from e obtain name c where kc: "(name, c) \<in> set kids" and ee: "e \<in> set (entries_of (name, c))"
    by auto
  note ee' = ee[unfolded entries_of_mem]
  from ee' obtain sub where c: "c = Dir sub" by blast
  from wk kc c have look: "map_of kids name = Some (Dir sub)"
    by (simp add: map_of_kids)
  from wf_child[OF wk kc] c have pl: "plain name" and ws: "wf (Dir sub)"
    by simp_all
  have "\<exists>k. node_at t (pk @ split_sep e) = Some (Dir k)"
  proof (cases "startsWith name ''@''")
    case True
    with ee' c obtain child where ch: "child \<in> set (subdirectories sub)" and en: "e = name @ CHR ''/'' # child"
      by auto
    from ch obtain k where k: "(child, Dir k) \<in> set sub" by (auto simp: subdirectories_mem)
    with ws have "plain child" "map_of sub child = Some (Dir k)"
      using wf_child[OF ws k] by (simp_all add: map_of_kids)
    with pl en look assms(2) show ?thesis
      by (simp add: split_sep_scoped node_at_append)
  next
    case False
    with ee' c have "e = name" by auto
    with pl look assms(2) show ?thesis
      by (simp add: plain_single node_at_append)
  qed
  with pn show "package_name e \<and> (\<exists>k. node_at t (pk @ split_sep e) = Some (Dir k))" by simp
next
  from wf_node_at[OF assms] have wk: "wf (Dir kids)" by simp
  assume "package_name e \<and> (\<exists>k. node_at t (pk @ split_sep e) = Some (Dir k))"
  then obtain k where pn: "package_name e" and k: "node_at t (pk @ split_sep e) = Some (Dir k)"
    by blast
  from pn show "e \<in> set (concat (map entries_of kids))"
  proof (cases rule: package_name_cases)
    case flat
    with k assms(2) have "map_of kids e = Some (Dir k)"
      by (simp add: node_at_append split: option.splits)
    with wk have "(e, Dir k) \<in> set kids" by (simp add: map_of_kids)
    moreover from flat have "e \<in> set (entries_of (e, Dir k))" by simp
    ultimately show ?thesis by force
  next
    case (scoped scope child)
    with k assms(2) obtain c where c: "map_of kids scope = Some c" and ck: "node_at c [child] = Some (Dir k)"
      by (auto simp: node_at_append split: option.splits)
    from ck obtain sub where sub: "c = Dir sub" "map_of sub child = Some (Dir k)"
      by (cases c) (auto split: option.splits)
    from wk c sub have in1: "(scope, Dir sub) \<in> set kids" by (simp add: map_of_kids)
    with wk have "wf (Dir sub)" using wf_child by blast
    with sub have "(child, Dir k) \<in> set sub" by (simp add: map_of_kids)
    then have "child \<in> set (subdirectories sub)" by (auto simp: subdirectories_mem)
    with scoped have "e \<in> set (entries_of (scope, Dir sub))"
      unfolding entries_of_mem by auto
    with in1 show ?thesis by force
  qed
qed

lemma listing_Inr:
  assumes "wf t" "getProjectPackageListing root t = Inr L"
  obtains kids where "node_at t (projectPackagesDir root) = Some (Dir kids)"
    "L = concat (map entries_of kids)"
proof -
  from assms(2) obtain ds where "getDirectories t (projectPackagesDir root) = Inr ds"
    by (auto simp: getProjectPackageListing_def split: sum.splits)
  then obtain kids where k: "node_at t (projectPackagesDir root) = Some (Dir kids)"
    using getDirectories_Inr by blast
  from listing_of_kids[OF assms(1) k] assms(2) have "L = concat (map entries_of kids)" by simp
  with k that show thesis by blast
qed

lemma listing_mem_tree:
  assumes "wf t" "getProjectPackageListing root t = Inr L"
  shows "e \<in> set L \<longleftrightarrow>
         package_name e \<and> (\<exists>k. node_at t (projectPackagesDir root @ split_sep e) = Some (Dir k))"
proof -
  from assms obtain kids where k: "node_at t (projectPackagesDir root) = Some (Dir kids)"
    and L: "L = concat (map entries_of kids)" by (rule listing_Inr)
  from listing_mem[OF assms(1) k, of e] L show ?thesis by simp
qed

lemma shrunk_refl: "shrunk t t"
  by (simp add: shrunk_def)

lemma shrunk_trans: "shrunk t ta \<Longrightarrow> shrunk ta t' \<Longrightarrow> shrunk t t'"
  unfolding shrunk_def by metis

lemma shrunk_None: "shrunk t t' \<Longrightarrow> node_at t q = None \<Longrightarrow> node_at t' q = None"
  unfolding shrunk_def by (cases "node_at t' q") fastforce+

lemma deleted_pair_shrunk: "deleted_pair dir meta t t' \<Longrightarrow> shrunk t t'"
  unfolding shrunk_def using deleted_pair_shrinks by blast

lemma remove_loop_shrunk:
  assumes "forEach (removeRedundant root) xs s = Inr s'" "\<forall>x \<in> set xs. package_name x"
  shows "shrunk (tree s) (tree s')"
proof (rule forEach_invariant[OF assms(1), of "\<lambda>a. shrunk (tree s) (tree a)"])
  show "shrunk (tree s) (tree s)" by (rule shrunk_refl)
next
  fix x a b assume x: "x \<in> set xs" and a: "shrunk (tree s) (tree a)" and b: "removeRedundant root x a = Inr b"
  from assms(2) x have "list_all plain (split_sep x)" by (simp add: package_name_segments)
  from removeRedundant_Inr[OF b this] have "shrunk (tree a) (tree b)" by (rule deleted_pair_shrunk)
  with a show "shrunk (tree s) (tree b)" by (rule shrunk_trans)
qed

lemma remove_loop_wf:
  assumes "forEach (removeRedundant root) xs s = Inr s'" "\<forall>x \<in> set xs. package_name x" "wf (tree s)"
  shows "wf (tree s')"
proof (rule forEach_invariant[OF assms(1), of "\<lambda>a. wf (tree a)"])
  show "wf (tree s)" by (rule assms(3))
next
  fix x a b assume x: "x \<in> set xs" and a: "wf (tree a)" and b: "removeRedundant root x a = Inr b"
  from assms(2) x have "list_all plain (split_sep x)" by (simp add: package_name_segments)
  from removeRedundant_Inr[OF b this] a show "wf (tree b)" by (rule deleted_pair_wf)
qed

lemma remove_loop_frame:
  assumes "forEach (removeRedundant root) xs s = Inr s'" "\<forall>x \<in> set xs. package_name x"
    and "\<forall>x \<in> set xs. apart (projectPackagesDir root @ split_sep x) q
                     \<and> apart (projectPackagesDir root @ meta_segments x) q"
  shows "node_at (tree s') q = node_at (tree s) q"
proof (rule forEach_invariant[OF assms(1), of "\<lambda>a. node_at (tree a) q = node_at (tree s) q"])
  show "node_at (tree s) q = node_at (tree s) q" by simp
next
  fix x a b assume x: "x \<in> set xs" and a: "node_at (tree a) q = node_at (tree s) q"
    and b: "removeRedundant root x a = Inr b"
  from assms(2) x have "list_all plain (split_sep x)" by (simp add: package_name_segments)
  from deleted_pair_frame[OF removeRedundant_Inr[OF b this], of q] assms(3) x a
  show "node_at (tree b) q = node_at (tree s) q" by simp
qed

lemma remove_loop_keeps:
  assumes "forEach (removeRedundant root) xs s = Inr s'" "\<forall>x \<in> set xs. package_name x"
    and "package_name d" "d \<notin> set xs"
    and "node_at (tree s) (projectPackagesDir root @ split_sep d) = Some (Dir k)"
  shows "node_at (tree s') (projectPackagesDir root @ split_sep d) = Some (Dir k)"
proof (rule forEach_invariant[OF assms(1),
      of "\<lambda>a. node_at (tree a) (projectPackagesDir root @ split_sep d) = Some (Dir k)"])
  show "node_at (tree s) (projectPackagesDir root @ split_sep d) = Some (Dir k)" by (rule assms(5))
next
  fix x a b assume x: "x \<in> set xs"
    and a: "node_at (tree a) (projectPackagesDir root @ split_sep d) = Some (Dir k)"
    and b: "removeRedundant root x a = Inr b"
  from assms(2) x have px: "package_name x" by simp
  then have pl: "list_all plain (split_sep x)" by (rule package_name_segments)
  from x assms(4) have ne: "x \<noteq> d" by auto
  show "node_at (tree b) (projectPackagesDir root @ split_sep d) = Some (Dir k)"
  proof (rule deleted_pair_keeps_dir[OF removeRedundant_Inr[OF b pl] _ _ a])
    show "apart (projectPackagesDir root @ split_sep x) (projectPackagesDir root @ split_sep d)"
      using package_dirs_apart[OF px assms(3) ne] by simp
    show "projectPackagesDir root @ split_sep d = projectPackagesDir root @ meta_segments x
        \<or> apart (projectPackagesDir root @ meta_segments x) (projectPackagesDir root @ split_sep d)"
      using package_meta_apart[OF px assms(3)] by auto
  qed
qed

lemma remove_loop_gone:
  assumes "forEach (removeRedundant root) xs s = Inr s'" "\<forall>x \<in> set xs. package_name x" "e \<in> set xs"
  shows "node_at (tree s') (projectPackagesDir root @ split_sep e @ r) = None
       \<and> node_at (tree s') (projectPackagesDir root @ meta_segments e @ r) = None"
proof (rule forEach_established[OF assms(1,3), of "\<lambda>a. True"])
  fix a b assume b: "removeRedundant root e a = Inr b"
  from assms(2,3) have "list_all plain (split_sep e)" by (simp add: package_name_segments)
  from deleted_pair_gone[OF removeRedundant_Inr[OF b this], of r]
  show "node_at (tree b) (projectPackagesDir root @ split_sep e @ r) = None
       \<and> node_at (tree b) (projectPackagesDir root @ meta_segments e @ r) = None"
    by simp
next
  fix y a b assume y: "y \<in> set xs" and b: "removeRedundant root y a = Inr b"
    and a: "node_at (tree a) (projectPackagesDir root @ split_sep e @ r) = None
       \<and> node_at (tree a) (projectPackagesDir root @ meta_segments e @ r) = None"
  from assms(2) y have "list_all plain (split_sep y)" by (simp add: package_name_segments)
  from removeRedundant_Inr[OF b this] have "shrunk (tree a) (tree b)" by (rule deleted_pair_shrunk)
  with a show "node_at (tree b) (projectPackagesDir root @ split_sep e @ r) = None
       \<and> node_at (tree b) (projectPackagesDir root @ meta_segments e @ r) = None"
    by (simp add: shrunk_None)
qed simp_all

lemma remove_loop_base:
  assumes "forEach (removeRedundant root) xs s = Inr s'" "\<forall>x \<in> set xs. package_name x"
    and "\<exists>k. node_at (tree s) (projectPackagesDir root) = Some (Dir k)"
  shows "\<exists>k. node_at (tree s') (projectPackagesDir root) = Some (Dir k)"
proof (rule forEach_invariant[OF assms(1), of "\<lambda>a. \<exists>k. node_at (tree a) (projectPackagesDir root) = Some (Dir k)"])
  show "\<exists>k. node_at (tree s) (projectPackagesDir root) = Some (Dir k)" by (rule assms(3))
next
  fix x a b assume x: "x \<in> set xs" and a: "\<exists>k. node_at (tree a) (projectPackagesDir root) = Some (Dir k)"
    and b: "removeRedundant root x a = Inr b"
  from assms(2) x have "list_all plain (split_sep x)" by (simp add: package_name_segments)
  from removeRedundant_Inr[OF b this] a
  show "\<exists>k. node_at (tree b) (projectPackagesDir root) = Some (Dir k)"
    by (auto intro: deleted_pair_base simp: split_sep_nonempty meta_segments_def)
qed

lemma forEach_succeeds:
  assumes "I s" "\<And>x a. x \<in> set xs \<Longrightarrow> I a \<Longrightarrow> \<exists>b. body x a = Inr b \<and> I b"
  shows "\<exists>s'. forEach body xs s = Inr s' \<and> I s'"
  using assms
proof (induction xs arbitrary: s)
  case Nil
  then show ?case by simp
next
  case (Cons x xs)
  from Cons.prems(2)[of x s] Cons.prems(1) obtain a where a: "body x s = Inr a" "I a" by auto
  have "\<exists>s'. forEach body xs a = Inr s' \<and> I s'"
  proof (rule Cons.IH[OF a(2)])
    fix y b assume "y \<in> set xs" "I b"
    then show "\<exists>c. body y b = Inr c \<and> I c" using Cons.prems(2)[of y b] by simp
  qed
  with a show ?case by simp
qed

lemma removeSync_ok:
  "remove_at p (tree s) = Inr t \<Longrightarrow> removeSync p s = Inr \<lparr>tree = t, trace = trace s @ [Remove p]\<rparr>"
  by (simp add: removeSync_def call_ok)

lemma unlinkSync_ok:
  "node_at (tree s) p = Some (File c) \<Longrightarrow> remove_at p (tree s) = Inr t \<Longrightarrow>
   unlinkSync p s = Inr \<lparr>tree = t, trace = trace s @ [Unlink p]\<rparr>"
  by (simp add: unlinkSync_def unlink_file_def call_def)

lemma removeRedundant_succeeds:
  assumes "list_all plain (split_sep e)"
    and "\<forall>k. node_at (tree s) (projectPackagesDir root @ meta_segments e) \<noteq> Some (Dir k)"
  shows "\<exists>s'. removeRedundant root e s = Inr s'"
proof -
  let ?dir = "projectPackagesDir root @ split_sep e"
  let ?meta = "projectPackagesDir root @ meta_segments e"
  let ?s1 = "\<lparr>tree = tree s, trace = trace s @ [Validate ?dir]\<rparr>"
  have d: "path_resolve (projectPackagesDir root) e = ?dir"
    using assms(1) by (rule plain_segments_resolve)
  have m: "path_resolve (projectPackagesDir root) (e @ ''.meta'') = ?meta"
    using assms(1) by (rule meta_resolve)
  have v: "validateProjectPackageDirectory ?dir s = Inr ?s1"
    by (simp add: validate_ok guard_ok_inside)
  have "\<exists>s2. (if existsSync (tree ?s1) ?dir then removeSync ?dir ?s1 else Inr ?s1) = Inr s2
        \<and> shrunk (tree s) (tree s2)"
  proof (cases "node_at (tree s) ?dir")
    case None
    then show ?thesis by (simp add: existsSync_def shrunk_refl)
  next
    case (Some n)
    then obtain t where t: "remove_at ?dir (tree s) = Inr t"
      using remove_at_succeeds[of "tree s" ?dir n] by (auto simp: projectPackagesDir_eq)
    then have "shrunk (tree s) t"
      unfolding shrunk_def using remove_at_shrinks by blast
    with Some t show ?thesis
      by (simp add: existsSync_def removeSync_ok)
  qed
  then obtain s2 where s2: "(if existsSync (tree ?s1) ?dir then removeSync ?dir ?s1 else Inr ?s1) = Inr s2"
    and sh: "shrunk (tree s) (tree s2)" by blast
  have "\<exists>s'. (if existsSync (tree s2) ?meta then unlinkSync ?meta s2 else Inr s2) = Inr s'"
  proof (cases "node_at (tree s2) ?meta")
    case None
    then show ?thesis by (simp add: existsSync_def)
  next
    case (Some n')
    with sh obtain n where n: "node_at (tree s) ?meta = Some n" "is_dir n = is_dir n'"
      unfolding shrunk_def by blast
    with assms(2) obtain c where "n' = File c"
      by (cases n; cases n') auto
    moreover from Some obtain t where "remove_at ?meta (tree s2) = Inr t"
      using remove_at_succeeds[of "tree s2" ?meta n'] by (auto simp: projectPackagesDir_eq)
    ultimately show ?thesis using Some
      by (simp add: existsSync_def unlinkSync_ok)
  qed
  with v s2 show ?thesis
    unfolding removeRedundant_def Let_def d m by auto
qed

lemma remove_loop_succeeds:
  assumes "\<forall>x \<in> set xs. package_name x"
    and "\<forall>x \<in> set xs. \<forall>k. node_at (tree s) (projectPackagesDir root @ meta_segments x) \<noteq> Some (Dir k)"
  shows "\<exists>s'. forEach (removeRedundant root) xs s = Inr s'"
proof -
  have "\<exists>s'. forEach (removeRedundant root) xs s = Inr s' \<and> shrunk (tree s) (tree s')"
  proof (rule forEach_succeeds)
    show "shrunk (tree s) (tree s)" by (rule shrunk_refl)
  next
    fix x and a :: state
    assume x: "x \<in> set xs" and a: "shrunk (tree s) (tree a)"
    from assms(1) x have pl: "list_all plain (split_sep x)" by (simp add: package_name_segments)
    have "\<forall>k. node_at (tree a) (projectPackagesDir root @ meta_segments x) \<noteq> Some (Dir k)"
    proof (intro allI notI)
      fix k assume "node_at (tree a) (projectPackagesDir root @ meta_segments x) = Some (Dir k)"
      with a obtain n where "node_at (tree s) (projectPackagesDir root @ meta_segments x) = Some n" "is_dir n"
        unfolding shrunk_def by fastforce
      with assms(2) x show False by (cases n) auto
    qed
    from removeRedundant_succeeds[OF pl this] obtain b where b: "removeRedundant root x a = Inr b"
      by blast
    from removeRedundant_Inr[OF b pl] have "shrunk (tree a) (tree b)" by (rule deleted_pair_shrunk)
    with a b show "\<exists>b. removeRedundant root x a = Inr b \<and> shrunk (tree s) (tree b)"
      using shrunk_trans by blast
  qed
  then show ?thesis by blast
qed

lemma phase2_unfold:
  "getProjectPackageListing root (tree s) = Inr L \<Longrightarrow>
   phase2 root deps s = forEach (removeRedundant root) (filter (\<lambda>packageName. packageName \<notin> set deps) L) s"
  by (simp add: phase2_def Let_def)

lemma phase2_listing_after:
  assumes "wf (tree s)" "getProjectPackageListing root (tree s) = Inr L" "phase2 root deps s = Inr s'"
  shows "\<exists>L'. getProjectPackageListing root (tree s') = Inr L' \<and> set L' = set L \<inter> set deps"
proof -
  let ?R = "filter (\<lambda>packageName. packageName \<notin> set deps) L"
  let ?pk = "projectPackagesDir root"
  from assms(2,3) have loop: "forEach (removeRedundant root) ?R s = Inr s'"
    by (simp add: phase2_unfold)
  have pn: "\<forall>x \<in> set ?R. package_name x"
    using listing_package_names[OF assms(1,2)] by simp
  from assms(1,2) obtain kids where kids: "node_at (tree s) ?pk = Some (Dir kids)"
    by (rule listing_Inr)
  from remove_loop_base[OF loop pn] kids obtain kids' where kids': "node_at (tree s') ?pk = Some (Dir kids')"
    by blast
  from remove_loop_wf[OF loop pn assms(1)] have wf': "wf (tree s')" .
  let ?L' = "concat (map entries_of kids')"
  from listing_of_kids[OF wf' kids'] have L': "getProjectPackageListing root (tree s') = Inr ?L'" .
  have "e \<in> set ?L' \<longleftrightarrow> e \<in> set L \<and> e \<in> set deps" for e
  proof
    assume "e \<in> set ?L'"
    with listing_mem_tree[OF wf' L', of e] obtain k where pe: "package_name e"
      and k: "node_at (tree s') (?pk @ split_sep e) = Some (Dir k)" by blast
    from remove_loop_shrunk[OF loop pn] k obtain n where "node_at (tree s) (?pk @ split_sep e) = Some n" "is_dir n"
      unfolding shrunk_def by fastforce
    then have "\<exists>k. node_at (tree s) (?pk @ split_sep e) = Some (Dir k)" by (cases n) auto
    with pe have inL: "e \<in> set L" using listing_mem_tree[OF assms(1,2), of e] by simp
    have "e \<in> set deps"
    proof (rule ccontr)
      assume "e \<notin> set deps"
      with inL have "e \<in> set ?R" by simp
      from remove_loop_gone[OF loop pn this, of "[]"] k show False by simp
    qed
    with inL show "e \<in> set L \<and> e \<in> set deps" by simp
  next
    assume e: "e \<in> set L \<and> e \<in> set deps"
    with listing_mem_tree[OF assms(1,2), of e] obtain k where pe: "package_name e"
      and k: "node_at (tree s) (?pk @ split_sep e) = Some (Dir k)" by blast
    from e have "e \<notin> set ?R" by simp
    from remove_loop_keeps[OF loop pn pe this k] pe show "e \<in> set ?L'"
      using listing_mem_tree[OF wf' L', of e] by simp
  qed
  with L' show ?thesis by auto
qed

lemma phase2_Inr:
  "phase2 root deps s = Inr s' \<Longrightarrow> \<exists>L. getProjectPackageListing root (tree s) = Inr L"
  by (auto simp: phase2_def split: sum.splits)

lemma scoped_package_name:
  "plain scope \<Longrightarrow> plain child \<Longrightarrow> startsWith scope ''@'' \<Longrightarrow> package_name (scope @ ''/'' @ child)"
  by (simp add: package_name_def split_sep_scoped)

lemma flat_package_name: "plain x \<Longrightarrow> \<not> startsWith x ''@'' \<Longrightarrow> package_name x"
  by (simp add: package_name_def plain_single)

lemma removeRedundant_frame:
  assumes "removeRedundant root e a = Inr b" "package_name e" "package_name d" "e \<noteq> d"
    and "meta_segments e \<noteq> split_sep d"
  shows "node_at (tree b) (path_resolve (projectPackagesDir root) d)
       = node_at (tree a) (path_resolve (projectPackagesDir root) d)"
proof -
  from assms(2) have pe: "list_all plain (split_sep e)" by (rule package_name_segments)
  from assms(3) have pd: "list_all plain (split_sep d)" by (rule package_name_segments)
  have "node_at (tree b) (projectPackagesDir root @ split_sep d)
      = node_at (tree a) (projectPackagesDir root @ split_sep d)"
  proof (rule deleted_pair_frame[OF removeRedundant_Inr[OF assms(1) pe]])
    show "apart (projectPackagesDir root @ split_sep e) (projectPackagesDir root @ split_sep d)"
      using package_dirs_apart[OF assms(2,3,4)] by simp
    show "apart (projectPackagesDir root @ meta_segments e) (projectPackagesDir root @ split_sep d)"
      using package_meta_apart[OF assms(2,3)] assms(5) by simp
  qed
  with pd show ?thesis by (simp add: plain_segments_resolve)
qed

lemma emptiness_checks_append:
  "emptiness_checks (tr @ es) = emptiness_checks tr @ emptiness_checks es"
  by (induction tr rule: emptiness_checks.induct) auto

lemma scope_paths:
  assumes "plain x"
  shows "path_resolve base x = base @ [x]" "path_resolve base (x @ ''.meta'') = base @ [x @ ''.meta'']"
proof -
  from assms have s: "split_sep x = [x]" by (rule plain_single)
  then have p: "list_all plain (split_sep x)" using assms by simp
  from plain_segments_resolve[OF p] s show "path_resolve base x = base @ [x]" by simp
  from meta_resolve[OF p] s show "path_resolve base (x @ ''.meta'') = base @ [x @ ''.meta'']"
    by (simp add: meta_segments_def)
qed

lemma pruneScope_Inr:
  assumes "pruneScope root x s = Inr s'" "plain x"
  shows "(if is_empty_at (tree s) (projectPackagesDir root @ [x])
          then deleted_pair (projectPackagesDir root @ [x]) (projectPackagesDir root @ [x @ ''.meta''])
                 (tree s) (tree s')
               \<and> (\<exists>ta. remove_at (projectPackagesDir root @ [x]) (tree s) = Inr ta
                      \<and> (\<forall>k. node_at ta (projectPackagesDir root @ [x @ ''.meta'']) \<noteq> Some (Dir k)))
          else tree s' = tree s)
       \<and> emptiness_checks (trace s') = emptiness_checks (trace s) @ [projectPackagesDir root @ [x]]"
proof -
  let ?dir = "projectPackagesDir root @ [x]"
  let ?meta = "projectPackagesDir root @ [x @ ''.meta'']"
  from assms(1) obtain s1 where s1: "validateProjectPackageDirectory ?dir s = Inr s1"
    and rest: "(case isEmptySync ?dir s1 of
            (True, s2) \<Rightarrow>
              (case removeSync ?dir s2 of
                 Inl e \<Rightarrow> Inl e
               | Inr s3 \<Rightarrow> if existsSync (tree s3) ?meta then unlinkSync ?meta s3 else Inr s3)
          | (False, s2) \<Rightarrow> Inr s2) = Inr s'"
    unfolding pruneScope_def Let_def scope_paths[OF assms(2)] by (auto split: sum.splits)
  from validate_Inr[OF s1] have t1: "tree s1 = tree s" "trace s1 = trace s @ [Validate ?dir]" by simp_all
  let ?s2 = "s1\<lparr>trace := trace s1 @ [IsEmpty ?dir]\<rparr>"
  have e2: "emptiness_checks (trace ?s2) = emptiness_checks (trace s) @ [?dir]"
    using t1 by (simp add: emptiness_checks_append)
  show ?thesis
  proof (cases "is_empty_at (tree s) ?dir")
    case False
    with rest t1 have "s' = ?s2" by (simp add: isEmptySync_def)
    with False e2 t1 show ?thesis by simp
  next
    case True
    with rest t1 obtain s3 where s3: "removeSync ?dir ?s2 = Inr s3"
      and s4: "(if existsSync (tree s3) ?meta then unlinkSync ?meta s3 else Inr s3) = Inr s'"
      by (auto simp: isEmptySync_def split: sum.splits)
    from removeSync_Inr[OF s3] t1 have r3: "remove_at ?dir (tree s) = Inr (tree s3)"
      and tr3: "trace s3 = trace ?s2 @ [Remove ?dir]" by simp_all
    from s4 have b: "(\<exists>c. node_at (tree s3) ?meta = Some (File c)) \<and> remove_at ?meta (tree s3) = Inr (tree s')
        \<and> trace s' = trace s3 @ [Unlink ?meta]
      \<or> node_at (tree s3) ?meta = None \<and> s' = s3"
      by (auto simp: existsSync_def split: if_splits dest!: unlinkSync_Inr)
    from r3 b have "deleted_pair ?dir ?meta (tree s) (tree s')"
      unfolding deleted_pair_def by blast
    moreover from b have "\<forall>k. node_at (tree s3) ?meta \<noteq> Some (Dir k)" by auto
    moreover from b tr3 e2 have "emptiness_checks (trace s') = emptiness_checks (trace s) @ [?dir]"
      by (auto simp: emptiness_checks_append)
    ultimately show ?thesis using True r3 by auto
  qed
qed

lemma meta_differs: "x @ ''.meta'' \<noteq> x"
  by simp

lemma prune_step_top:
  assumes "pruneScope root x s = Inr s'" "plain x"
  shows "node_at (tree s') (projectPackagesDir root @ [name])
       = (if is_empty_at (tree s) (projectPackagesDir root @ [x]) \<and> (name = x \<or> name = x @ ''.meta'')
          then None else node_at (tree s) (projectPackagesDir root @ [name]))"
proof (cases "is_empty_at (tree s) (projectPackagesDir root @ [x])")
  case False
  with pruneScope_Inr[OF assms] show ?thesis by simp
next
  case True
  with pruneScope_Inr[OF assms]
  have dp: "deleted_pair (projectPackagesDir root @ [x]) (projectPackagesDir root @ [x @ ''.meta''])
      (tree s) (tree s')" by simp
  show ?thesis
  proof (cases "name = x \<or> name = x @ ''.meta''")
    case True
    with deleted_pair_gone[OF dp, of "[]"] \<open>is_empty_at (tree s) (projectPackagesDir root @ [x])\<close>
    show ?thesis by auto
  next
    case False
    then have "apart (projectPackagesDir root @ [x]) (projectPackagesDir root @ [name])"
      "apart (projectPackagesDir root @ [x @ ''.meta'']) (projectPackagesDir root @ [name])"
      by auto
    from deleted_pair_frame[OF dp this] False show ?thesis by simp
  qed
qed

lemma prune_step_sidecar:
  assumes "pruneScope root x s = Inr s'" "plain x" "is_empty_at (tree s) (projectPackagesDir root @ [x])"
  shows "node_at (tree s) (projectPackagesDir root @ [x @ ''.meta'']) \<noteq> Some (Dir k)"
proof -
  from pruneScope_Inr[OF assms(1,2)] assms(3) obtain ta
    where ta: "remove_at (projectPackagesDir root @ [x]) (tree s) = Inr ta"
      and nd: "\<forall>k. node_at ta (projectPackagesDir root @ [x @ ''.meta'']) \<noteq> Some (Dir k)"
    by auto
  have "apart (projectPackagesDir root @ [x]) (projectPackagesDir root @ [x @ ''.meta''])"
    by simp
  from remove_at_frame[OF ta this] nd show ?thesis by simp
qed

lemma is_empty_Dir: "node_at t p = Some (Dir k) \<Longrightarrow> is_empty_at t p = (k = [])"
  by (simp add: is_empty_at_def)

lemma prune_loop:
  assumes "forEach (pruneScope root) xs s = Inr s'" "distinct xs" "\<forall>x \<in> set xs. plain x"
    and "\<forall>x \<in> set xs. \<exists>k. node_at (tree s) (projectPackagesDir root @ [x]) = Some (Dir k)"
  shows "node_at (tree s') (projectPackagesDir root @ [name])
       = (if \<exists>m \<in> set xs. node_at (tree s) (projectPackagesDir root @ [m]) = Some (Dir [])
                \<and> (name = m \<or> name = m @ ''.meta'')
          then None else node_at (tree s) (projectPackagesDir root @ [name]))"
  using assms
proof (induction xs arbitrary: s)
  case Nil
  then show ?case by simp
next
  case (Cons x xs)
  let ?pk = "projectPackagesDir root"
  from Cons.prems(1) obtain a where a: "pruneScope root x s = Inr a" and rest: "forEach (pruneScope root) xs a = Inr s'"
    by (auto split: sum.splits)
  from Cons.prems(3) have px: "plain x" by simp
  from Cons.prems(4) obtain kx where kx: "node_at (tree s) (?pk @ [x]) = Some (Dir kx)" by auto
  then have emp: "is_empty_at (tree s) (?pk @ [x]) = (kx = [])" by (rule is_empty_Dir)
  note top = prune_step_top[OF a px, unfolded emp]
  have same: "node_at (tree a) (?pk @ [m]) = node_at (tree s) (?pk @ [m])" if m: "m \<in> set xs" for m
  proof -
    from Cons.prems(2) m have "m \<noteq> x" by auto
    moreover have "\<not> (kx = [] \<and> m = x @ ''.meta'')"
    proof
      assume h: "kx = [] \<and> m = x @ ''.meta''"
      from Cons.prems(4) m obtain k where "node_at (tree s) (?pk @ [m]) = Some (Dir k)" by auto
      with h prune_step_sidecar[OF a px, of k] emp show False by simp
    qed
    ultimately show ?thesis using top[of m] by auto
  qed
  have IH: "node_at (tree s') (?pk @ [name])
       = (if \<exists>m \<in> set xs. node_at (tree a) (?pk @ [m]) = Some (Dir [])
                \<and> (name = m \<or> name = m @ ''.meta'')
          then None else node_at (tree a) (?pk @ [name]))"
  proof (rule Cons.IH[OF rest])
    show "distinct xs" using Cons.prems(2) by simp
    show "\<forall>x \<in> set xs. plain x" using Cons.prems(3) by simp
    show "\<forall>x \<in> set xs. \<exists>k. node_at (tree a) (?pk @ [x]) = Some (Dir k)"
      using Cons.prems(4) same by simp
  qed
  have "(\<exists>m \<in> set xs. node_at (tree a) (?pk @ [m]) = Some (Dir []) \<and> (name = m \<or> name = m @ ''.meta''))
      = (\<exists>m \<in> set xs. node_at (tree s) (?pk @ [m]) = Some (Dir []) \<and> (name = m \<or> name = m @ ''.meta''))"
    using same by auto
  with IH top[of name] kx show ?case by auto
qed

lemma prune_step_facts:
  assumes "pruneScope root x s = Inr s'" "plain x"
  shows "shrunk (tree s) (tree s')" "wf (tree s) \<Longrightarrow> wf (tree s')"
    "\<exists>k. node_at (tree s) (projectPackagesDir root) = Some (Dir k)
     \<Longrightarrow> \<exists>k. node_at (tree s') (projectPackagesDir root) = Some (Dir k)"
    "apart (projectPackagesDir root @ [x]) q \<Longrightarrow> apart (projectPackagesDir root @ [x @ ''.meta'']) q
     \<Longrightarrow> node_at (tree s') q = node_at (tree s) q"
proof -
  note st = pruneScope_Inr[OF assms, THEN conjunct1]
  show "shrunk (tree s) (tree s')"
    using st by (auto split: if_splits intro: deleted_pair_shrunk shrunk_refl)
  show "wf (tree s')" if "wf (tree s)"
    using st that by (auto split: if_splits intro: deleted_pair_wf)
  show "\<exists>k. node_at (tree s') (projectPackagesDir root) = Some (Dir k)"
    if "\<exists>k. node_at (tree s) (projectPackagesDir root) = Some (Dir k)"
    using st that by (auto split: if_splits intro: deleted_pair_base)
  show "node_at (tree s') q = node_at (tree s) q"
    if "apart (projectPackagesDir root @ [x]) q" "apart (projectPackagesDir root @ [x @ ''.meta'']) q"
    using st that by (auto split: if_splits intro: deleted_pair_frame)
qed

lemma prune_loop_facts:
  assumes "forEach (pruneScope root) xs s = Inr s'" "\<forall>x \<in> set xs. plain x"
  shows "shrunk (tree s) (tree s')" "wf (tree s) \<Longrightarrow> wf (tree s')"
    "\<exists>k. node_at (tree s) (projectPackagesDir root) = Some (Dir k)
     \<Longrightarrow> \<exists>k. node_at (tree s') (projectPackagesDir root) = Some (Dir k)"
    "emptiness_checks (trace s') = emptiness_checks (trace s) @ map (\<lambda>x. projectPackagesDir root @ [x]) xs"
proof -
  show "shrunk (tree s) (tree s')"
    by (rule forEach_invariant[OF assms(1), of "\<lambda>a. shrunk (tree s) (tree a)"])
      (use assms(2) in \<open>auto intro: shrunk_refl shrunk_trans prune_step_facts(1)\<close>)
  show "wf (tree s')" if "wf (tree s)"
    by (rule forEach_invariant[OF assms(1), of "\<lambda>a. wf (tree a)"])
      (use assms(2) that in \<open>auto intro: prune_step_facts(2)\<close>)
  show "\<exists>k. node_at (tree s') (projectPackagesDir root) = Some (Dir k)"
    if "\<exists>k. node_at (tree s) (projectPackagesDir root) = Some (Dir k)"
    by (rule forEach_invariant[OF assms(1),
          of "\<lambda>a. \<exists>k. node_at (tree a) (projectPackagesDir root) = Some (Dir k)"])
      (use assms(2) that in \<open>auto intro: prune_step_facts(3)\<close>)
  show "emptiness_checks (trace s') = emptiness_checks (trace s) @ map (\<lambda>x. projectPackagesDir root @ [x]) xs"
    using assms
  proof (induction xs arbitrary: s)
    case Nil
    then show ?case by simp
  next
    case (Cons x xs)
    from Cons.prems(1) obtain a where a: "pruneScope root x s = Inr a"
      and rest: "forEach (pruneScope root) xs a = Inr s'"
      by (auto split: sum.splits)
    from Cons.prems(2) have "plain x" by simp
    from pruneScope_Inr[OF a this, THEN conjunct2] Cons.IH[OF rest] Cons.prems(2)
    show ?case by simp
  qed
qed


lemma prune_loop_keeps:
  assumes "forEach (pruneScope root) xs s = Inr s'" "\<forall>x \<in> set xs. plain x"
    and "node_at (tree s) (projectPackagesDir root @ [name]) = Some (Dir (k # ks))"
  shows "node_at (tree s') (projectPackagesDir root @ [name]) = Some (Dir (k # ks))"
proof (rule forEach_invariant[OF assms(1),
      of "\<lambda>a. node_at (tree a) (projectPackagesDir root @ [name]) = Some (Dir (k # ks))"])
  show "node_at (tree s) (projectPackagesDir root @ [name]) = Some (Dir (k # ks))" by (rule assms(3))
next
  fix x a b assume x: "x \<in> set xs"
    and a: "node_at (tree a) (projectPackagesDir root @ [name]) = Some (Dir (k # ks))"
    and b: "pruneScope root x a = Inr b"
  from assms(2) x have px: "plain x" by simp
  have "\<not> (is_empty_at (tree a) (projectPackagesDir root @ [x]) \<and> (name = x \<or> name = x @ ''.meta''))"
  proof
    assume h: "is_empty_at (tree a) (projectPackagesDir root @ [x]) \<and> (name = x \<or> name = x @ ''.meta'')"
    then show False
    proof (cases "name = x")
      case True
      with h a show False by (simp add: is_empty_Dir)
    next
      case False
      with h have "name = x @ ''.meta''" by simp
      with a h prune_step_sidecar[OF b px, of "k # ks"] show False by simp
    qed
  qed
  with prune_step_top[OF b px, of name] a
  show "node_at (tree b) (projectPackagesDir root @ [name]) = Some (Dir (k # ks))" by simp
qed

lemma remove_child_succeeds:
  "node_at t b = Some (Dir k) \<Longrightarrow> \<exists>t'. remove_at (b @ [x]) t = Inr t'"
proof (induction b arbitrary: t)
  case Nil
  then show ?case by simp
next
  case (Cons s b)
  from Cons.prems obtain kids c where t: "t = Dir kids" and c: "map_of kids s = Some c"
    and d: "node_at c b = Some (Dir k)"
    by (cases t) (auto split: option.splits)
  from Cons.IH[OF d] obtain c' where "remove_at (b @ [x]) c = Inr c'" by blast
  with t c show ?case by (cases "b @ [x]") auto
qed

lemma pruneScope_succeeds:
  assumes "plain x" "node_at (tree s) (projectPackagesDir root) = Some (Dir k)"
    and "\<forall>k. node_at (tree s) (projectPackagesDir root @ [x @ ''.meta'']) \<noteq> Some (Dir k)"
  shows "\<exists>s'. pruneScope root x s = Inr s'"
proof -
  let ?dir = "projectPackagesDir root @ [x]"
  let ?meta = "projectPackagesDir root @ [x @ ''.meta'']"
  let ?s1 = "\<lparr>tree = tree s, trace = trace s @ [Validate ?dir]\<rparr>"
  let ?s2 = "\<lparr>tree = tree s, trace = trace s @ [Validate ?dir, IsEmpty ?dir]\<rparr>"
  have v: "validateProjectPackageDirectory ?dir s = Inr ?s1"
    by (simp add: validate_ok guard_ok_inside)
  have e: "isEmptySync ?dir ?s1 = (is_empty_at (tree s) ?dir, ?s2)"
    by (simp add: isEmptySync_def)
  from remove_child_succeeds[OF assms(2), of x] obtain ta where ta: "remove_at ?dir (tree s) = Inr ta"
    by blast
  let ?s3 = "\<lparr>tree = ta, trace = trace s @ [Validate ?dir, IsEmpty ?dir, Remove ?dir]\<rparr>"
  from ta have r: "removeSync ?dir ?s2 = Inr ?s3" by (simp add: removeSync_ok)
  have "apart ?dir ?meta" by simp
  from remove_at_frame[OF ta this] have m: "node_at ta ?meta = node_at (tree s) ?meta" .
  have "\<exists>s'. (if existsSync (tree ?s3) ?meta then unlinkSync ?meta ?s3 else Inr ?s3) = Inr s'"
  proof (cases "node_at ta ?meta")
    case None
    then show ?thesis by (simp add: existsSync_def)
  next
    case (Some n)
    with m have "node_at (tree s) ?meta = Some n" by simp
    with assms(3) have "\<forall>k. n \<noteq> Dir k" by auto
    then obtain c where c: "n = File c" by (cases n) auto
    from Some obtain t where "remove_at ?meta ta = Inr t"
      using remove_at_succeeds[of ta ?meta n] by (auto simp: projectPackagesDir_eq)
    with Some c show ?thesis by (simp add: existsSync_def unlinkSync_ok)
  qed
  then obtain s4 where s4: "(if existsSync (tree ?s3) ?meta then unlinkSync ?meta ?s3 else Inr ?s3) = Inr s4"
    by blast
  have "pruneScope root x s = (if is_empty_at (tree s) ?dir then Inr s4 else Inr ?s2)"
    unfolding pruneScope_def Let_def scope_paths[OF assms(1)]
    using s4 by (simp add: v e r)
  then show ?thesis by auto
qed

lemma prune_loop_succeeds:
  assumes "\<forall>x \<in> set xs. plain x" "node_at (tree s) (projectPackagesDir root) = Some (Dir k)"
    and "\<forall>x \<in> set xs. \<forall>k. node_at (tree s) (projectPackagesDir root @ [x @ ''.meta'']) \<noteq> Some (Dir k)"
  shows "\<exists>s'. forEach (pruneScope root) xs s = Inr s'"
proof -
  let ?I = "\<lambda>a. shrunk (tree s) (tree a) \<and> (\<exists>k. node_at (tree a) (projectPackagesDir root) = Some (Dir k))"
  have "\<exists>s'. forEach (pruneScope root) xs s = Inr s' \<and> ?I s'"
  proof (rule forEach_succeeds)
    show "?I s" using assms(2) by (simp add: shrunk_refl)
  next
    fix x and a :: state
    assume x: "x \<in> set xs" and a: "?I a"
    from assms(1) x have px: "plain x" by simp
    from a obtain ka where ka: "node_at (tree a) (projectPackagesDir root) = Some (Dir ka)" by blast
    have "\<forall>k. node_at (tree a) (projectPackagesDir root @ [x @ ''.meta'']) \<noteq> Some (Dir k)"
    proof (intro allI notI)
      fix k assume "node_at (tree a) (projectPackagesDir root @ [x @ ''.meta'']) = Some (Dir k)"
      with a obtain n where "node_at (tree s) (projectPackagesDir root @ [x @ ''.meta'']) = Some n" "is_dir n"
        unfolding shrunk_def by fastforce
      with assms(3) x show False by (cases n) auto
    qed
    from pruneScope_succeeds[OF px ka this] obtain b where b: "pruneScope root x a = Inr b" by blast
    from prune_step_facts(1,3)[OF b px] a have "?I b"
      using shrunk_trans by blast
    with b show "\<exists>b. pruneScope root x a = Inr b \<and> ?I b" by blast
  qed
  then show ?thesis by blast
qed

lemma scopes_list_facts:
  assumes "wf (Dir kids)"
  shows "distinct (filter (\<lambda>d. startsWith d ''@'') (subdirectories kids))"
    "\<forall>x \<in> set (filter (\<lambda>d. startsWith d ''@'') (subdirectories kids)). plain x"
    "\<forall>x \<in> set (filter (\<lambda>d. startsWith d ''@'') (subdirectories kids)). \<exists>sub. map_of kids x = Some (Dir sub)"
proof -
  from assms have "distinct (map fst kids)" by simp
  then show "distinct (filter (\<lambda>d. startsWith d ''@'') (subdirectories kids))"
    by (simp add: subdirectories_def distinct_map_filter)
  show "\<forall>x \<in> set (filter (\<lambda>d. startsWith d ''@'') (subdirectories kids)). plain x"
    using wf_child[OF assms] by (auto simp: subdirectories_mem)
  show "\<forall>x \<in> set (filter (\<lambda>d. startsWith d ''@'') (subdirectories kids)). \<exists>sub. map_of kids x = Some (Dir sub)"
    using assms by (auto simp: subdirectories_mem map_of_kids simp del: wf.simps)
qed

lemma phase3_unfold:
  "wf (tree s) \<Longrightarrow> node_at (tree s) (projectPackagesDir root) = Some (Dir kids) \<Longrightarrow>
   phase3 root s = forEach (pruneScope root) (filter (\<lambda>d. startsWith d ''@'') (subdirectories kids)) s"
  by (simp add: phase3_def scopes_of_kids)

lemma pruned_iff:
  assumes "wf (Dir kids)"
  shows "pruned kids name \<longleftrightarrow>
    (\<exists>m \<in> set (filter (\<lambda>d. startsWith d ''@'') (subdirectories kids)).
        map_of kids m = Some (Dir []) \<and> (name = m \<or> name = m @ ''.meta''))"
proof
  assume "pruned kids name"
  then obtain m c where mc: "(m, c) \<in> set kids" "c = Dir []" "startsWith m ''@''"
    "name = m \<or> name = m @ ''.meta''"
    by (auto simp: pruned_def list_ex_iff)
  then have "m \<in> set (filter (\<lambda>d. startsWith d ''@'') (subdirectories kids))"
    by (auto simp: subdirectories_mem)
  moreover from mc assms have "map_of kids m = Some (Dir [])"
    by (simp add: map_of_kids del: wf.simps)
  ultimately show "\<exists>m \<in> set (filter (\<lambda>d. startsWith d ''@'') (subdirectories kids)).
        map_of kids m = Some (Dir []) \<and> (name = m \<or> name = m @ ''.meta'')"
    using mc(4) by blast
next
  assume "\<exists>m \<in> set (filter (\<lambda>d. startsWith d ''@'') (subdirectories kids)).
        map_of kids m = Some (Dir []) \<and> (name = m \<or> name = m @ ''.meta'')"
  then obtain m where m: "startsWith m ''@''" "map_of kids m = Some (Dir [])"
    "name = m \<or> name = m @ ''.meta''" by auto
  from m(2) assms have "(m, Dir []) \<in> set kids" by (simp add: map_of_kids del: wf.simps)
  with m show "pruned kids name"
    unfolding pruned_def list_ex_iff by force
qed

lemma phase3_top_level:
  assumes "wf (tree s)" "node_at (tree s) (projectPackagesDir root) = Some (Dir kids)"
    and "phase3 root s = Inr s'"
  shows "node_at (tree s') (projectPackagesDir root @ [name])
       = (if pruned kids name then None else map_of kids name)"
proof -
  let ?xs = "filter (\<lambda>d. startsWith d ''@'') (subdirectories kids)"
  from wf_node_at[OF assms(1,2)] have wk: "wf (Dir kids)" by simp
  note top = node_at_child[OF assms(2)]
  from assms have loop: "forEach (pruneScope root) ?xs s = Inr s'" by (simp add: phase3_unfold)
  have dirs: "\<forall>x \<in> set ?xs. \<exists>k. node_at (tree s) (projectPackagesDir root @ [x]) = Some (Dir k)"
    using scopes_list_facts(3)[OF wk] by (simp add: top)
  from prune_loop[OF loop scopes_list_facts(1,2)[OF wk] dirs, of name]
  show ?thesis
    unfolding top pruned_iff[OF wk] .
qed

subsection \<open>One copy of phase 1\<close>

lemma path_join_empty: "path_join base [[]] = base"
  by (simp add: path_join_def)

lemma emptyDirSync_Inr:
  assumes "emptyDirSync p s = Inr s1"
  shows "node_at (tree s1) p = Some (Dir [])" "trace s1 = trace s @ [EmptyDir p]"
    "apart p q \<Longrightarrow> node_at (tree s1) q = node_at (tree s) q"
proof -
  from assms have m: "modify_at p empty_or_make (Some (tree s)) = Inr (tree s1)"
    and tr: "trace s1 = trace s @ [EmptyDir p]"
    by (auto simp: emptyDirSync_def dest!: call_Inr)
  from modify_at_node[OF m] obtain r where r: "empty_or_make (onode_at (Some (tree s)) p) = Inr r"
    and n: "node_at (tree s1) p = Some r" by blast
  from r have "r = Dir []"
    by (cases "onode_at (Some (tree s)) p" rule: empty_or_make.cases) auto
  with n show "node_at (tree s1) p = Some (Dir [])" by simp
  show "trace s1 = trace s @ [EmptyDir p]" by (rule tr)
  show "node_at (tree s1) q = node_at (tree s) q" if "apart p q"
    using modify_at_apart[OF m that] .
qed

lemma copySync_Inr:
  assumes "copySync src dst s = Inr s'"
  shows "\<exists>n r. node_at (tree s) src = Some n \<and> merge_node n (node_at (tree s) dst) = Inr r
            \<and> node_at (tree s') dst = Some r"
    "trace s' = trace s @ [Copy src dst]"
    "apart dst q \<Longrightarrow> node_at (tree s') q = node_at (tree s) q"
proof -
  from assms have c: "copy_tree src dst (tree s) = Inr (tree s')"
    and tr: "trace s' = trace s @ [Copy src dst]"
    by (auto simp: copySync_def dest!: call_Inr)
  from c obtain n where n: "node_at (tree s) src = Some n"
    and m: "modify_at dst (merge_node n) (Some (tree s)) = Inr (tree s')"
    by (auto simp: copy_tree_def split: option.splits if_splits)
  from modify_at_node[OF m] n
  show "\<exists>n r. node_at (tree s) src = Some n \<and> merge_node n (node_at (tree s) dst) = Inr r
            \<and> node_at (tree s') dst = Some r" by auto
  show "trace s' = trace s @ [Copy src dst]" by (rule tr)
  show "node_at (tree s') q = node_at (tree s) q" if "apart dst q"
    using modify_at_apart[OF m that] .
qed

lemma separate_apart: "separate d t \<Longrightarrow> apart (t @ r) (d @ r')"
  by (simp add: separate_def)

lemma separate_apart0: "separate d t \<Longrightarrow> apart t (d @ r')"
  using separate_apart[of d t "[]"] by simp

lemma copy_extra_Inr:
  assumes "copyIfExistsSync d t f None s = Inr s'" "plain f" "separate d t"
  shows "node_at (tree s') (d @ r) = node_at (tree s) (d @ r)"
    "apart (t @ [f]) q \<Longrightarrow> node_at (tree s') q = node_at (tree s) q"
    "node_at (tree s) (d @ [f]) = None \<Longrightarrow> s' = s"
    "node_at (tree s) (d @ [f]) = Some n \<Longrightarrow>
       trace s' = trace s @ [Copy (d @ [f]) (t @ [f])]
       \<and> (\<exists>r. merge_node n (node_at (tree s) (t @ [f])) = Inr r \<and> node_at (tree s') (t @ [f]) = Some r)"
proof -
  have pj: "path_join d [f] = d @ [f]" "path_join t [f] = t @ [f]"
    using assms(2) by (simp_all add: path_join_plain)
  from assms(1) have c: "(if existsSync (tree s) (d @ [f]) then copySync (d @ [f]) (t @ [f]) s else Inr s) = Inr s'"
    by (simp add: copyIfExistsSync_def Let_def pj cong: if_cong)
  show fr: "node_at (tree s') q = node_at (tree s) q" if "apart (t @ [f]) q" for q
    using c that by (auto split: if_splits dest: copySync_Inr(3))
  show "node_at (tree s') (d @ r) = node_at (tree s) (d @ r)"
    by (rule fr) (rule separate_apart[OF assms(3)])
  show "s' = s" if "node_at (tree s) (d @ [f]) = None"
    using c that by (simp add: existsSync_def)
  show "trace s' = trace s @ [Copy (d @ [f]) (t @ [f])]
       \<and> (\<exists>r. merge_node n (node_at (tree s) (t @ [f])) = Inr r \<and> node_at (tree s') (t @ [f]) = Some r)"
    if "node_at (tree s) (d @ [f]) = Some n"
  proof -
    from c that have cs: "copySync (d @ [f]) (t @ [f]) s = Inr s'" by (simp add: existsSync_def)
    from copySync_Inr(1,2)[OF cs] that show ?thesis by auto
  qed
qed

lemma copy_assets_Inr:
  assumes "copyIfExistsSync d t ''assets'' (Some []) s = Inr s'" "separate d t"
  shows "node_at (tree s') (d @ r) = node_at (tree s) (d @ r)"
    "apart t q \<Longrightarrow> node_at (tree s') q = node_at (tree s) q"
    "node_at (tree s) (d @ [''assets'']) = None \<Longrightarrow> s' = s"
    "node_at (tree s) (d @ [''assets'']) = Some n \<Longrightarrow>
       trace s' = trace s @ [Copy (d @ [''assets'']) t]
       \<and> (\<exists>r. merge_node n (node_at (tree s) t) = Inr r \<and> node_at (tree s') t = Some r)"
proof -
  have pj: "path_join d [''assets''] = d @ [''assets'']"
    by (rule path_join_plain) (simp add: plain_def)
  from assms(1) have c: "(if existsSync (tree s) (d @ [''assets'']) then copySync (d @ [''assets'']) t s else Inr s) = Inr s'"
    by (simp add: copyIfExistsSync_def Let_def pj path_join_empty cong: if_cong)
  show fr: "node_at (tree s') q = node_at (tree s) q" if "apart t q" for q
    using c that by (auto split: if_splits dest: copySync_Inr(3))
  show "node_at (tree s') (d @ r) = node_at (tree s) (d @ r)"
    by (rule fr) (rule separate_apart0[OF assms(2)])
  show "s' = s" if "node_at (tree s) (d @ [''assets'']) = None"
    using c that by (simp add: existsSync_def)
  show "trace s' = trace s @ [Copy (d @ [''assets'']) t]
       \<and> (\<exists>r. merge_node n (node_at (tree s) t) = Inr r \<and> node_at (tree s') t = Some r)"
    if "node_at (tree s) (d @ [''assets'']) = Some n"
  proof -
    from c that have cs: "copySync (d @ [''assets'']) t s = Inr s'" by (simp add: existsSync_def)
    from copySync_Inr(1,2)[OF cs] that show ?thesis by auto
  qed
qed

lemma extras_loop_Inr:
  assumes "forEach (\<lambda>f. copyIfExistsSync d t f None) fs s = Inr s'" "\<forall>f \<in> set fs. plain f" "separate d t"
  shows "node_at (tree s') (d @ r) = node_at (tree s) (d @ r)"
    "(\<forall>f \<in> set fs. apart (t @ [f]) q) \<Longrightarrow> node_at (tree s') q = node_at (tree s) q"
    "trace s' = trace s @ extra_copies (tree s) d t fs"
proof -
  show "node_at (tree s') (d @ r) = node_at (tree s) (d @ r)"
    by (rule forEach_invariant[OF assms(1), of "\<lambda>a. node_at (tree a) (d @ r) = node_at (tree s) (d @ r)"])
      (use assms(2,3) in \<open>auto simp: copy_extra_Inr(1)\<close>)
  show "node_at (tree s') q = node_at (tree s) q" if "\<forall>f \<in> set fs. apart (t @ [f]) q"
    by (rule forEach_invariant[OF assms(1), of "\<lambda>a. node_at (tree a) q = node_at (tree s) q"])
      (use assms(2,3) that in \<open>auto simp: copy_extra_Inr(2)\<close>)
  show "trace s' = trace s @ extra_copies (tree s) d t fs"
    using assms(1,2)
  proof (induction fs arbitrary: s)
    case Nil
    then show ?case by (simp add: extra_copies_def)
  next
    case (Cons f fs)
    from Cons.prems(1) obtain a where a: "copyIfExistsSync d t f None s = Inr a"
      and rest: "forEach (\<lambda>f. copyIfExistsSync d t f None) fs a = Inr s'"
      by (auto split: sum.splits)
    from Cons.prems(2) have pf: "plain f" by simp
    have src: "existsSync (tree a) (d @ [g]) = existsSync (tree s) (d @ [g])" for g
      using copy_extra_Inr(1)[OF a pf assms(3), of "[g]"] by (simp add: existsSync_def)
    then have same: "extra_copies (tree a) d t fs = extra_copies (tree s) d t fs"
      by (simp add: extra_copies_def)
    have first: "trace a = trace s @ (if existsSync (tree s) (d @ [f]) then [Copy (d @ [f]) (t @ [f])] else [])"
    proof (cases "node_at (tree s) (d @ [f])")
      case None
      with copy_extra_Inr(3)[OF a pf assms(3)] show ?thesis by (simp add: existsSync_def)
    next
      case (Some n)
      with copy_extra_Inr(4)[OF a pf assms(3)] show ?thesis by (simp add: existsSync_def)
    qed
    from Cons.IH[OF rest] Cons.prems(2) same first show ?case
      by (simp add: extra_copies_def)
  qed
qed

subsection \<open>The installation\<close>

lemma extraFiles_plain: "\<forall>f \<in> set extraFiles. plain f"
  by (simp add: extraFiles_def plain_def)

lemma apart_child: "apart t q \<Longrightarrow> apart (t @ r) q"
  using apart_extend[of t q r "[]"] by simp

lemma install_Inr:
  assumes "install d t s = Inr s'" "separate d t" "wf (tree s)"
  shows "trace s' = trace s @ [EmptyDir t]
           @ (if existsSync (tree s) (d @ [''assets'']) then [Copy (d @ [''assets'']) t] else [])
           @ extra_copies (tree s) d t extraFiles"
    "node_at (tree s') (d @ r) = node_at (tree s) (d @ r)"
    "apart t q \<Longrightarrow> node_at (tree s') q = node_at (tree s) q"
    "node_at (tree s) (d @ [''package.json'']) = Some (File c)
       \<Longrightarrow> node_at (tree s') (t @ [''package.json'']) = Some (File c)"
    "f \<in> set extraFiles \<Longrightarrow> node_at (tree s) (d @ [f]) = None
       \<Longrightarrow> node_at (tree s') (t @ [f]) = node_at (tree s) (d @ [''assets'', f])"
proof -
  from assms(1) obtain s1 s2 where s1: "emptyDirSync t s = Inr s1"
    and s2: "copyIfExistsSync d t ''assets'' (Some []) s1 = Inr s2"
    and s3: "forEach (\<lambda>f. copyIfExistsSync d t f None) extraFiles s2 = Inr s'"
    by (auto simp: install_def split: sum.splits)
  note e = emptyDirSync_Inr[OF s1]
  note a = copy_assets_Inr[OF s2 assms(2)]
  note x = extras_loop_Inr[OF s3 extraFiles_plain assms(2)]
  have src1: "node_at (tree s1) (d @ r) = node_at (tree s) (d @ r)" for r
    by (rule e(3)) (rule separate_apart0[OF assms(2)])
  have src2: "node_at (tree s2) (d @ r) = node_at (tree s) (d @ r)" for r
    using a(1)[of r] src1[of r] by simp
  show "node_at (tree s') (d @ r) = node_at (tree s) (d @ r)"
    using x(1)[of r] src2[of r] by simp
  show "node_at (tree s') q = node_at (tree s) q" if "apart t q"
  proof -
    from that have "\<forall>f \<in> set extraFiles. apart (t @ [f]) q" by (simp add: apart_child)
    from x(2)[OF this] a(2)[OF that] e(3)[OF that] show ?thesis by simp
  qed
  have tr2: "trace s2 = trace s1
      @ (if existsSync (tree s) (d @ [''assets'']) then [Copy (d @ [''assets'']) t] else [])"
  proof (cases "node_at (tree s) (d @ [''assets''])")
    case None
    with a(3) src1[of "[''assets'']"] show ?thesis by (simp add: existsSync_def)
  next
    case (Some n)
    with a(4)[of n] src1[of "[''assets'']"] show ?thesis by (simp add: existsSync_def)
  qed
  have "extra_copies (tree s2) d t extraFiles = extra_copies (tree s) d t extraFiles"
    using src2 by (simp add: extra_copies_def existsSync_def)
  with x(3) tr2 e(2)
  show "trace s' = trace s @ [EmptyDir t]
           @ (if existsSync (tree s) (d @ [''assets'']) then [Copy (d @ [''assets'']) t] else [])
           @ extra_copies (tree s) d t extraFiles"
    by simp
  have after_assets: "node_at (tree s2) (t @ [f]) = node_at (tree s) (d @ [''assets'', f])" for f
  proof (cases "node_at (tree s) (d @ [''assets''])")
    case None
    with a(3) src1[of "[''assets'']"] have "s2 = s1" by simp
    moreover from None have "node_at (tree s) (d @ [''assets'', f]) = None"
      using node_at_prefix_None[of "tree s" "d @ [''assets'']" "[f]"] by simp
    ultimately show ?thesis using e(1) by (simp add: node_at_append)
  next
    case (Some n)
    with a(4)[of n] src1[of "[''assets'']"] e(1) obtain r
      where r: "merge_node n (Some (Dir [])) = Inr r" "node_at (tree s2) t = Some r" by auto
    from wf_node_at[OF assms(3) Some] have wn: "wf n" by simp
    from r(1) obtain ks where ks: "n = Dir ks" by (cases n) auto
    from wn ks have "merge_node n (Some (Dir [])) = Inr (Dir ks)"
      using merge_into_empty[of ks] by blast
    with r(1) have "r = Dir ks" by simp
    have "node_at (tree s) ((d @ [''assets'']) @ [f]) = node_at (Dir ks) [f]"
      using Some ks by (simp only: node_at_append[of "tree s" "d @ [''assets'']" "[f]"] option.case)
    moreover have "node_at (tree s2) (t @ [f]) = node_at (Dir ks) [f]"
      using r(2) \<open>r = Dir ks\<close> by (simp only: node_at_append[of "tree s2" t "[f]"] option.case)
    ultimately show ?thesis by simp
  qed
  show "node_at (tree s') (t @ [f]) = node_at (tree s) (d @ [''assets'', f])"
    if f: "f \<in> set extraFiles" "node_at (tree s) (d @ [f]) = None"
  proof -
    have "node_at (tree s') (t @ [f]) = node_at (tree s2) (t @ [f])"
    proof (rule forEach_invariant[OF s3,
          of "\<lambda>a. node_at (tree a) (t @ [f]) = node_at (tree s2) (t @ [f])
                 \<and> node_at (tree a) (d @ [f]) = None", THEN conjunct1])
      show "node_at (tree s2) (t @ [f]) = node_at (tree s2) (t @ [f]) \<and> node_at (tree s2) (d @ [f]) = None"
        using src2[of "[f]"] f(2) by simp
    next
      fix g a b
      assume g: "g \<in> set extraFiles"
        and ia: "node_at (tree a) (t @ [f]) = node_at (tree s2) (t @ [f]) \<and> node_at (tree a) (d @ [f]) = None"
        and st: "copyIfExistsSync d t g None a = Inr b"
      from g extraFiles_plain have pg: "plain g" by simp
      note c = copy_extra_Inr[OF st pg assms(2)]
      show "node_at (tree b) (t @ [f]) = node_at (tree s2) (t @ [f]) \<and> node_at (tree b) (d @ [f]) = None"
      proof (cases "g = f")
        case True
        with c(3) ia show ?thesis by simp
      next
        case False
        then have "apart (t @ [g]) (t @ [f])" by simp
        from c(2)[OF this] c(1)[of "[f]"] ia show ?thesis by simp
      qed
    qed
    with after_assets[of f] show ?thesis by simp
  qed
  show "node_at (tree s') (t @ [''package.json'']) = Some (File c)"
    if pj: "node_at (tree s) (d @ [''package.json'']) = Some (File c)"
  proof -
    from s3 obtain s3' where first: "copyIfExistsSync d t ''package.json'' None s2 = Inr s3'"
      and rest: "forEach (\<lambda>f. copyIfExistsSync d t f None) [''README.md'', ''LICENSE''] s3' = Inr s'"
      by (auto simp: extraFiles_def split: sum.splits)
    have pp: "plain ''package.json''" by (simp add: plain_def)
    from pj src2[of "[''package.json'']"] have "node_at (tree s2) (d @ [''package.json'']) = Some (File c)"
      by simp
    from copy_extra_Inr(4)[OF first pp assms(2) this] obtain r
      where "merge_node (File c) (node_at (tree s2) (t @ [''package.json''])) = Inr r"
        "node_at (tree s3') (t @ [''package.json'']) = Some r" by blast
    with merge_file have at3: "node_at (tree s3') (t @ [''package.json'']) = Some (File c)" by blast
    have "node_at (tree s') (t @ [''package.json'']) = node_at (tree s3') (t @ [''package.json''])"
      by (rule extras_loop_Inr(2)[OF rest _ assms(2)]) (simp_all add: plain_def)
    with at3 show ?thesis by simp
  qed
qed

subsection \<open>Paths of phase 1\<close>

lemma dependencyDir_eq:
  assumes "list_all plain (split_sep name)"
  shows "path_join root [''node_modules'', name] = root @ ''node_modules'' # split_sep name"
proof -
  have "split_sep ''node_modules'' = [''node_modules'']"
    by (rule plain_single) (simp add: plain_def)
  then have "path_join root [''node_modules'', name]
      = normalize_onto root (''node_modules'' # split_sep name)"
    by (simp add: path_join_def)
  also have "\<dots> = root @ ''node_modules'' # split_sep name"
    by (rule normalize_onto_plain) (use assms in \<open>simp add: plain_def\<close>)
  finally show ?thesis .
qed

lemma separate_dirs: "separate (root @ ''node_modules'' # r) (projectPackagesDir root @ r')"
  by (simp add: separate_def projectPackagesDir_eq)

subsection \<open>Calls that succeed\<close>

lemma emptyDirSync_succeeds:
  assumes "free_way (Some (tree s)) p" "\<forall>c. node_at (tree s) p \<noteq> Some (File c)"
  shows "\<exists>s1. emptyDirSync p s = Inr s1"
proof -
  from assms(2) obtain r where "empty_or_make (onode_at (Some (tree s)) p) = Inr r"
    by (cases "node_at (tree s) p" rule: empty_or_make.cases) auto
  from modify_at_succeeds[of "Some (tree s)" p empty_or_make r, OF assms(1) this]
  show ?thesis by (auto simp: emptyDirSync_def call_def)
qed

lemma copySync_succeeds:
  assumes "node_at (tree s) src = Some n" "apart src dst" "free_way (Some (tree s)) dst"
    "merge_node n (node_at (tree s) dst) = Inr r"
  shows "\<exists>s'. copySync src dst s = Inr s'"
proof -
  from assms(4) have "merge_node n (onode_at (Some (tree s)) dst) = Inr r" by simp
  from modify_at_succeeds[of "Some (tree s)" dst "merge_node n" r, OF assms(3) this] assms(1,2)
  show ?thesis by (auto simp: copySync_def call_def copy_tree_def apart_def)
qed

lemma free_way_child: "onode_at cur p = Some (Dir ks) \<Longrightarrow> free_way cur (p @ [k])"
  by (induction cur p rule: free_way.induct) (auto split: option.splits)

lemma node_at_parent_dir:
  assumes "node_at tr (p @ [k]) = Some n"
  shows "\<exists>ks. node_at tr p = Some (Dir ks)"
proof -
  from assms obtain x where x: "node_at tr p = Some x" "node_at x [k] = Some n"
    by (auto simp: node_at_append split: option.splits)
  then show ?thesis by (cases x) auto
qed

subsection \<open>The destination after the assets are copied\<close>

lemma assets_step:
  assumes s1: "emptyDirSync t s = Inr s1"
    and s2: "copyIfExistsSync d t ''assets'' (Some []) s1 = Inr s2"
    and sep: "separate d t" and wf: "wf (tree s)"
  shows "node_at (tree s2) (t @ [k]) = node_at (tree s) (d @ [''assets'', k])"
    "\<exists>ks. node_at (tree s2) t = Some (Dir ks)"
    "node_at (tree s2) (d @ r) = node_at (tree s) (d @ r)"
proof -
  note e = emptyDirSync_Inr[OF s1]
  note a = copy_assets_Inr[OF s2 sep]
  have src1: "node_at (tree s1) (d @ r) = node_at (tree s) (d @ r)" for r
    by (rule e(3)) (rule separate_apart0[OF sep])
  show "node_at (tree s2) (d @ r) = node_at (tree s) (d @ r)"
    using a(1)[of r] src1[of r] by simp
  have both: "node_at (tree s2) (t @ [k]) = node_at (tree s) (d @ [''assets'', k])
      \<and> (\<exists>ks. node_at (tree s2) t = Some (Dir ks))"
  proof (cases "node_at (tree s) (d @ [''assets''])")
    case None
    with a(3) src1[of "[''assets'']"] have "s2 = s1" by simp
    moreover from None have "node_at (tree s) (d @ [''assets'', k]) = None"
      using node_at_prefix_None[of "tree s" "d @ [''assets'']" "[k]"] by simp
    ultimately show ?thesis using e(1) by (simp add: node_at_append)
  next
    case (Some n)
    with a(4)[of n] src1[of "[''assets'']"] e(1) obtain r
      where r: "merge_node n (Some (Dir [])) = Inr r" "node_at (tree s2) t = Some r" by auto
    from wf_node_at[OF wf Some] have wn: "wf n" by simp
    from r(1) obtain ks where ks: "n = Dir ks" by (cases n) auto
    from wn ks have "merge_node n (Some (Dir [])) = Inr (Dir ks)"
      using merge_into_empty[of ks] by blast
    with r(1) have rd: "r = Dir ks" by simp
    have "node_at (tree s) ((d @ [''assets'']) @ [k]) = node_at (Dir ks) [k]"
      using Some ks by (simp only: node_at_append[of "tree s" "d @ [''assets'']" "[k]"] option.case)
    moreover have "node_at (tree s2) (t @ [k]) = node_at (Dir ks) [k]"
      using r(2) rd by (simp only: node_at_append[of "tree s2" t "[k]"] option.case)
    ultimately show ?thesis using r(2) rd by simp
  qed
  from both show "node_at (tree s2) (t @ [k]) = node_at (tree s) (d @ [''assets'', k])" by simp
  from both show "\<exists>ks. node_at (tree s2) t = Some (Dir ks)" by simp
qed

lemma extras_loop_file:
  assumes loop: "forEach (\<lambda>f. copyIfExistsSync d t f None) fs s = Inr s'"
    and pl: "\<forall>f \<in> set fs. plain f" and sep: "separate d t"
    and f: "f \<in> set fs" "node_at (tree s) (d @ [f]) = Some (File c)"
  shows "node_at (tree s') (t @ [f]) = Some (File c)"
proof (rule forEach_established[OF loop f(1),
      of "\<lambda>a. node_at (tree a) (d @ [f]) = Some (File c)"
         "\<lambda>b. node_at (tree b) (t @ [f]) = Some (File c)"])
  show "node_at (tree s) (d @ [f]) = Some (File c)" by (rule f(2))
next
  fix y and a :: state and b :: state
  assume "y \<in> set fs" "node_at (tree a) (d @ [f]) = Some (File c)"
    "copyIfExistsSync d t y None a = Inr b"
  with pl sep show "node_at (tree b) (d @ [f]) = Some (File c)"
    by (simp add: copy_extra_Inr(1))
next
  fix a :: state and b :: state
  assume ia: "node_at (tree a) (d @ [f]) = Some (File c)"
    and st: "copyIfExistsSync d t f None a = Inr b"
  from pl f(1) have pf: "plain f" by simp
  from copy_extra_Inr(4)[OF st pf sep ia] merge_file
  show "node_at (tree b) (t @ [f]) = Some (File c)" by blast
next
  fix y and a :: state and b :: state
  assume y: "y \<in> set fs" and ia: "node_at (tree a) (d @ [f]) = Some (File c)"
    and qa: "node_at (tree a) (t @ [f]) = Some (File c)"
    and st: "copyIfExistsSync d t y None a = Inr b"
  from pl y have py: "plain y" by simp
  show "node_at (tree b) (t @ [f]) = Some (File c)"
  proof (cases "y = f")
    case True
    from copy_extra_Inr(4)[OF st[unfolded True] _ sep ia] pl f(1) merge_file
    show ?thesis by blast
  next
    case False
    then have "apart (t @ [y]) (t @ [f])" by simp
    from copy_extra_Inr(2)[OF st py sep this] qa show ?thesis by simp
  qed
qed

subsection \<open>An installation that succeeds\<close>

lemma regular_source_assets:
  assumes "regular_source tr d" "node_at tr (d @ [''assets'']) = Some n"
  shows "\<exists>ks. n = Dir ks \<and> (\<forall>f \<in> set extraFiles. \<forall>sub. map_of ks f \<noteq> Some (Dir sub))"
proof (cases n)
  case (File c)
  with assms show ?thesis by (simp add: regular_source_def)
next
  case (Dir ks)
  with assms have "list_all (\<lambda>f. case map_of ks f of Some (Dir sub) \<Rightarrow> False | _ \<Rightarrow> True) extraFiles"
    by (simp add: regular_source_def)
  then have "\<forall>f \<in> set extraFiles. \<forall>sub. map_of ks f \<noteq> Some (Dir sub)"
    by (auto simp: list_all_iff split: option.splits node.splits)
  with Dir show ?thesis by simp
qed

lemma regular_source_extra:
  assumes "regular_source tr d" "f \<in> set extraFiles"
  shows "node_at tr (d @ [f]) \<noteq> Some (Dir sub)"
proof -
  from assms(1) have "list_all (\<lambda>f. case node_at tr (d @ [f]) of Some (Dir sub) \<Rightarrow> False | _ \<Rightarrow> True) extraFiles"
    by (simp add: regular_source_def)
  with assms(2) show ?thesis
    by (auto simp: list_all_iff split: option.splits node.splits)
qed

lemma copy_assets_succeeds:
  assumes s1: "emptyDirSync t s = Inr s1" and sep: "separate d t" and wf: "wf (tree s)"
    and reg: "regular_source (tree s) d"
  shows "\<exists>s2. copyIfExistsSync d t ''assets'' (Some []) s1 = Inr s2"
proof -
  note e = emptyDirSync_Inr[OF s1]
  have pj: "path_join d [''assets''] = d @ [''assets'']"
    by (rule path_join_plain) (simp add: plain_def)
  have src1: "node_at (tree s1) (d @ [''assets'']) = node_at (tree s) (d @ [''assets''])"
    by (rule e(3)) (rule separate_apart0[OF sep])
  show ?thesis
  proof (cases "node_at (tree s) (d @ [''assets''])")
    case None
    with src1 show ?thesis
      by (simp add: copyIfExistsSync_def Let_def pj existsSync_def)
  next
    case (Some n)
    from regular_source_assets[OF reg Some] obtain ks where ks: "n = Dir ks" by blast
    from wf_node_at[OF wf Some] ks have "wf (Dir ks)" by simp
    then have m: "merge_node n (node_at (tree s1) t) = Inr (Dir ks)"
      using e(1) ks merge_into_empty[of ks] by simp
    have ap: "apart (d @ [''assets'']) t"
      by (rule apart_sym) (rule separate_apart0[OF sep])
    have fw: "free_way (Some (tree s1)) t"
      by (rule free_way_exists) (simp add: e(1))
    from Some src1 have "node_at (tree s1) (d @ [''assets'']) = Some n" by simp
    from copySync_succeeds[OF this ap fw m] Some src1 show ?thesis
      by (simp add: copyIfExistsSync_def Let_def pj path_join_empty existsSync_def)
  qed
qed

lemma copy_extra_succeeds:
  assumes pf: "plain f" and sep: "separate d t"
    and dir: "node_at (tree a) t = Some (Dir ks)"
    and src: "\<forall>sub. node_at (tree a) (d @ [f]) \<noteq> Some (Dir sub)"
    and dst: "\<forall>sub. node_at (tree a) (t @ [f]) \<noteq> Some (Dir sub)"
  shows "\<exists>b. copyIfExistsSync d t f None a = Inr b"
proof -
  have pj: "path_join d [f] = d @ [f]" "path_join t [f] = t @ [f]"
    using pf by (simp_all add: path_join_plain)
  show ?thesis
  proof (cases "node_at (tree a) (d @ [f])")
    case None
    then show ?thesis by (simp add: copyIfExistsSync_def Let_def pj existsSync_def)
  next
    case (Some n)
    with src obtain c where c: "n = File c" by (cases n) auto
    have m: "merge_node n (node_at (tree a) (t @ [f])) = Inr (File c)"
    proof (cases "node_at (tree a) (t @ [f])")
      case None
      with c show ?thesis by simp
    next
      case (Some x)
      with dst obtain c' where "x = File c'" by (cases x) auto
      with Some c show ?thesis by simp
    qed
    have ap: "apart (d @ [f]) (t @ [f])"
      by (rule apart_sym) (rule separate_apart[OF sep])
    have fw: "free_way (Some (tree a)) (t @ [f])"
      by (rule free_way_child[of _ _ ks]) (simp add: dir)
    from copySync_succeeds[OF Some ap fw m] Some show ?thesis
      by (simp add: copyIfExistsSync_def Let_def pj existsSync_def)
  qed
qed

lemma install_succeeds:
  assumes wf: "wf (tree s)" and sep: "separate d t"
    and fw: "free_way (Some (tree s)) t" and nf: "\<forall>c. node_at (tree s) t \<noteq> Some (File c)"
    and reg: "regular_source (tree s) d"
  shows "\<exists>s'. install d t s = Inr s'"
proof -
  from emptyDirSync_succeeds[OF fw nf] obtain s1 where s1: "emptyDirSync t s = Inr s1" by blast
  from copy_assets_succeeds[OF s1 sep wf reg] obtain s2
    where s2: "copyIfExistsSync d t ''assets'' (Some []) s1 = Inr s2" by blast
  note st = assets_step[OF s1 s2 sep wf]
  let ?I = "\<lambda>a. (\<exists>ks. node_at (tree a) t = Some (Dir ks))
      \<and> (\<forall>f \<in> set extraFiles. \<forall>sub. node_at (tree a) (t @ [f]) \<noteq> Some (Dir sub))
      \<and> (\<forall>f. node_at (tree a) (d @ [f]) = node_at (tree s) (d @ [f]))"
  have start: "?I s2"
  proof (intro conjI ballI allI)
    show "\<exists>ks. node_at (tree s2) t = Some (Dir ks)" by (rule st(2))
  next
    fix f sub assume f: "f \<in> set extraFiles"
    show "node_at (tree s2) (t @ [f]) \<noteq> Some (Dir sub)"
    proof (cases "node_at (tree s) (d @ [''assets''])")
      case None
      then have "node_at (tree s) (d @ [''assets'', f]) = None"
        using node_at_prefix_None[of "tree s" "d @ [''assets'']" "[f]"] by simp
      with st(1)[of f] show ?thesis by simp
    next
      case (Some n)
      from regular_source_assets[OF reg Some] obtain ks where ks: "n = Dir ks"
        and no: "\<forall>f \<in> set extraFiles. \<forall>sub. map_of ks f \<noteq> Some (Dir sub)" by blast
      from Some ks have "node_at (tree s) ((d @ [''assets'']) @ [f]) = map_of ks f"
        by (intro node_at_child) simp
      with st(1)[of f] no f show ?thesis by simp
    qed
  next
    fix f show "node_at (tree s2) (d @ [f]) = node_at (tree s) (d @ [f])" by (rule st(3))
  qed
  have "\<exists>s'. forEach (\<lambda>f. copyIfExistsSync d t f None) extraFiles s2 = Inr s' \<and> ?I s'"
  proof (rule forEach_succeeds[of ?I, OF start])
    fix f and a :: state
    assume f: "f \<in> set extraFiles" and ia: "?I a"
    from f extraFiles_plain have pf: "plain f" by simp
    from ia obtain ks where dir: "node_at (tree a) t = Some (Dir ks)" by blast
    from ia regular_source_extra[OF reg f]
    have src: "\<forall>sub. node_at (tree a) (d @ [f]) \<noteq> Some (Dir sub)" by simp
    from ia f have dst: "\<forall>sub. node_at (tree a) (t @ [f]) \<noteq> Some (Dir sub)" by blast
    from copy_extra_succeeds[OF pf sep dir src dst] obtain b
      where b: "copyIfExistsSync d t f None a = Inr b" by blast
    note c = copy_extra_Inr[OF b pf sep]
    have "?I b"
    proof (cases "node_at (tree a) (d @ [f])")
      case None
      from c(3)[OF None] ia show ?thesis by simp
    next
      case (Some n)
      with src obtain cc where cc: "n = File cc" by (cases n) auto
      from c(4)[OF Some] cc merge_file have at: "node_at (tree b) (t @ [f]) = Some (File cc)" by blast
      show ?thesis
      proof (intro conjI ballI allI)
        show "\<exists>ks. node_at (tree b) t = Some (Dir ks)" by (rule node_at_parent_dir[OF at])
      next
        fix g sub assume g: "g \<in> set extraFiles"
        show "node_at (tree b) (t @ [g]) \<noteq> Some (Dir sub)"
        proof (cases "g = f")
          case True
          with at show ?thesis by simp
        next
          case False
          then have "apart (t @ [f]) (t @ [g])" by simp
          from c(2)[OF this] ia g show ?thesis by simp
        qed
      next
        fix g show "node_at (tree b) (d @ [g]) = node_at (tree s) (d @ [g])"
          using c(1)[of "[g]"] ia by simp
      qed
    qed
    with b show "\<exists>b. copyIfExistsSync d t f None a = Inr b \<and> ?I b" by blast
  qed
  with s1 s2 show ?thesis by (auto simp: install_def)
qed

subsection \<open>What an installation leaves at the destination\<close>

lemma install_content:
  assumes inst: "install d t s = Inr s'" and sep: "separate d t" and wf: "wf (tree s)"
  shows "k \<notin> set extraFiles \<or> node_at (tree s) (d @ [k]) = None
           \<Longrightarrow> node_at (tree s') (t @ [k]) = node_at (tree s) (d @ [''assets'', k])"
    "f \<in> set extraFiles \<Longrightarrow> node_at (tree s) (d @ [f]) = Some (File c)
           \<Longrightarrow> node_at (tree s') (t @ [f]) = Some (File c)"
proof -
  from inst obtain s1 s2 where s1: "emptyDirSync t s = Inr s1"
    and s2: "copyIfExistsSync d t ''assets'' (Some []) s1 = Inr s2"
    and s3: "forEach (\<lambda>f. copyIfExistsSync d t f None) extraFiles s2 = Inr s'"
    by (auto simp: install_def split: sum.splits)
  note st = assets_step[OF s1 s2 sep wf]
  show "node_at (tree s') (t @ [f]) = Some (File c)"
    if "f \<in> set extraFiles" "node_at (tree s) (d @ [f]) = Some (File c)"
    by (rule extras_loop_file[OF s3 extraFiles_plain sep that(1)]) (simp add: st(3) that(2))
  show "node_at (tree s') (t @ [k]) = node_at (tree s) (d @ [''assets'', k])"
    if k: "k \<notin> set extraFiles \<or> node_at (tree s) (d @ [k]) = None"
  proof (cases "k \<in> set extraFiles")
    case True
    with k install_Inr(5)[OF inst sep wf True] show ?thesis by simp
  next
    case False
    then have "\<forall>f \<in> set extraFiles. apart (t @ [f]) (t @ [k])" by auto
    from extras_loop_Inr(2)[OF s3 extraFiles_plain sep this] st(1)[of k] show ?thesis by simp
  qed
qed

lemma node_at_prefix_dir:
  assumes "node_at tr (p @ q) = Some n" "q \<noteq> []"
  shows "\<exists>ks. node_at tr p = Some (Dir ks)"
proof -
  from assms(2) obtain k r where q: "q = k # r" by (cases q) auto
  from assms(1) obtain x where x: "node_at tr p = Some x" "node_at x q = Some n"
    by (auto simp: node_at_append split: option.splits)
  with q show ?thesis by (cases x) auto
qed

lemma syncDependency_fresh:
  assumes name: "list_all plain (split_sep name)"
    and cfg: "readJsonSync (tree s) (path_join (path_join root [''node_modules'', name]) [''package.json''])
               = Inr c"
    and marked: "specialKeyword \<in> set (keywords_of c)"
    and missing: "node_at (tree s) (path_resolve (projectPackagesDir root) name) = None"
  shows "syncDependency root name s
     = install (path_join root [''node_modules'', name]) (path_resolve (projectPackagesDir root) name)
         \<lparr>tree = tree s, trace = trace s @ [Validate (path_resolve (projectPackagesDir root) name)]\<rparr>"
proof -
  let ?t = "path_resolve (projectPackagesDir root) name"
  have g: "guard_ok ?t"
    using plain_segments_resolve[OF name, of "projectPackagesDir root"] guard_ok_inside[of root "split_sep name"]
    by simp
  have pj: "path_join ?t [''package.json''] = ?t @ [''package.json'']"
    by (rule path_join_plain) (simp add: plain_def)
  have no: "\<not> existsSync (tree s) (path_join ?t [''package.json''])"
    using node_at_prefix_None[OF missing, of "[''package.json'']"] by (simp add: pj existsSync_def)
  from marked have m: "specialKeyword \<in> set (case cfg_keywords c of None \<Rightarrow> [] | Some ks \<Rightarrow> ks)"
    by (simp add: keywords_of_def)
  show ?thesis
    using cfg m no by (simp add: syncDependency_def Let_def validate_ok[OF g])
qed

lemma package_metas_apart:
  assumes "package_name e" "package_name d" "e \<noteq> d"
  shows "apart (meta_segments e) (meta_segments d)"
  using assms(1)
proof (cases rule: package_name_cases)
  case flat
  from assms(2) show ?thesis
  proof (cases rule: package_name_cases)
    case flat': flat
    with flat assms(3) show ?thesis by (simp add: meta_segments_def)
  next
    case (scoped scope child)
    with flat show ?thesis
      using startsWith_meta[of e] by (auto simp: meta_segments_def plain_nonempty)
  qed
next
  case (scoped scope child)
  from assms(2) show ?thesis
  proof (cases rule: package_name_cases)
    case flat
    with scoped show ?thesis
      using startsWith_meta[of d] by (auto simp: meta_segments_def plain_nonempty)
  next
    case scoped': (scoped scope' child')
    with scoped assms(3) show ?thesis by (auto simp: meta_segments_def)
  qed
qed

lemma remove_loop_keeps_sidecar:
  assumes loop: "forEach (removeRedundant root) xs s = Inr s'"
    and pn: "\<forall>x \<in> set xs. package_name x"
    and dirs: "\<forall>x \<in> set xs. \<exists>k. node_at (tree s) (projectPackagesDir root @ split_sep x) = Some (Dir k)"
    and d: "package_name d" "d \<notin> set xs"
    and nodir: "\<forall>k. node_at (tree s) (projectPackagesDir root @ meta_segments d) \<noteq> Some (Dir k)"
  shows "node_at (tree s') (projectPackagesDir root @ meta_segments d)
       = node_at (tree s) (projectPackagesDir root @ meta_segments d)"
proof (rule remove_loop_frame[OF loop pn], intro ballI conjI)
  fix x assume x: "x \<in> set xs"
  with pn have px: "package_name x" by simp
  from x d(2) have ne: "x \<noteq> d" by auto
  from dirs x nodir have "meta_segments d \<noteq> split_sep x" by metis
  with package_meta_apart[OF d(1) px] have "apart (meta_segments d) (split_sep x)" by simp
  then show "apart (projectPackagesDir root @ split_sep x) (projectPackagesDir root @ meta_segments d)"
    by (simp add: apart_sym)
  from package_metas_apart[OF px d(1) ne]
  show "apart (projectPackagesDir root @ meta_segments x) (projectPackagesDir root @ meta_segments d)"
    by simp
qed

subsection \<open>The loop of phase 1 at one dependency\<close>

lemma phase1_snoc:
  "phase1 root before s = Inr a \<Longrightarrow> phase1 root (before @ [name]) s = syncDependency root name a"
  by (simp add: phase1_def forEach_append split: sum.splits)

lemma phase1_reaches:
  "phase1 root (before @ [name]) s = Inr b \<Longrightarrow>
   phase1 root (before @ name # after) s = phase1 root after b"
  using forEach_append[of "syncDependency root" "before @ [name]" after s]
  by (simp add: phase1_def)

lemma readJson_node:
  "readJsonSync t p = Inr c \<Longrightarrow> node_at t p = Some (File (Json c))"
  by (auto simp: readJsonSync_def split: option.splits node.splits content.splits)

lemma syncDependency_skip:
  assumes "readJsonSync (tree s) (path_join (path_join root [''node_modules'', name]) [''package.json'']) = Inr cfg"
    and "specialKeyword \<in> set (keywords_of cfg)"
    and "guard_ok (path_resolve (projectPackagesDir root) name)"
    and "readJsonSync (tree s) (path_join (path_resolve (projectPackagesDir root) name) [''package.json''])
           = Inr installed"
    and "cfg_version cfg = cfg_version installed"
  shows "syncDependency root name s
       = Inr \<lparr>tree = tree s, trace = trace s @ [Validate (path_resolve (projectPackagesDir root) name)]\<rparr>"
  using assms
  by (simp add: syncDependency_def keywords_of_def Let_def validate_ok existsSync_readJson)

lemma syncDependency_replace:
  assumes "readJsonSync (tree s) (path_join (path_join root [''node_modules'', name]) [''package.json'']) = Inr cfg"
    and "specialKeyword \<in> set (keywords_of cfg)"
    and "guard_ok (path_resolve (projectPackagesDir root) name)"
    and "\<not> existsSync (tree s) (path_join (path_resolve (projectPackagesDir root) name) [''package.json''])
        \<or> (readJsonSync (tree s) (path_join (path_resolve (projectPackagesDir root) name) [''package.json''])
              = Inr installed
            \<and> cfg_version cfg \<noteq> cfg_version installed)"
  shows "syncDependency root name s
       = install (path_join root [''node_modules'', name]) (path_resolve (projectPackagesDir root) name)
           \<lparr>tree = tree s, trace = trace s @ [Validate (path_resolve (projectPackagesDir root) name)]\<rparr>"
  using assms
  by (auto simp: syncDependency_def keywords_of_def Let_def validate_ok existsSync_readJson)

subsection \<open>The outcomes of one step of phase 1\<close>









subsection \<open>The loop of phase 1 as a whole\<close>









subsection \<open>What phases 2 and 3 leave of an installed dependency\<close>












subsection \<open>A run on a tree that is already in step\<close>











section \<open>Soft skips in phase 1\<close>

text \<open>
  C8. A declared dependency whose own \<open>package.json\<close> does not list the keyword
  \<open>unity3d-package\<close> (also when it has no \<open>keywords\<close> at all) is passed over by
  phase 1: the loop body returns the state as it was, without any call on the
  destination and without an error. A dependency whose installed \<open>package.json\<close>
  carries the same version is passed over after the guard alone, with the tree unchanged;
  and \<open>copyIfExistsSync\<close> on a file missing at the source returns the state as it was.
\<close>

theorem soft_skips:
  "(readJsonSync (tree s) (path_join (path_join root [''node_modules'', name]) [''package.json'']) = Inr cfg
      \<and> specialKeyword \<notin> set (keywords_of cfg)
    \<longrightarrow> syncDependency root name s = Inr s)
   \<and> (readJsonSync (tree s) (path_join (path_join root [''node_modules'', name]) [''package.json'']) = Inr cfg
      \<and> specialKeyword \<in> set (keywords_of cfg)
      \<and> guard_ok (path_resolve (projectPackagesDir root) name)
      \<and> readJsonSync (tree s) (path_join (path_resolve (projectPackagesDir root) name) [''package.json'']) = Inr installed
      \<and> cfg_version cfg = cfg_version installed
    \<longrightarrow> syncDependency root name s
        = Inr \<lparr>tree = tree s, trace = trace s @ [Validate (path_resolve (projectPackagesDir root) name)]\<rparr>)
   \<and> (\<not> existsSync (tree s) (path_join dependencyDir [file])
    \<longrightarrow> copyIfExistsSync dependencyDir assetsTargetPath file target s = Inr s)"
  by (auto simp: syncDependency_def keywords_of_def Let_def validate_ok copyIfExistsSync_def
      existsSync_readJson)

theorem soft_skips_witness:
  "readJsonSync example_project [''proj'', ''node_modules'', ''lib'', ''package.json'']
     = Inr \<lparr>cfg_version = Some ''3'', cfg_keywords = None, cfg_dependencies = None\<rparr>
   \<and> syncDependency [''proj''] ''lib'' \<lparr>tree = example_project, trace = []\<rparr>
     = Inr \<lparr>tree = example_project, trace = []\<rparr>
   \<and> readJsonSync example_project [''proj'', ''Assets'', ''Plugins'', ''Packages'', ''@org'', ''bar'', ''package.json'']
     = Inr \<lparr>cfg_version = Some ''2.0'', cfg_keywords = Some [''unity'', ''unity3d-package''], cfg_dependencies = None\<rparr>
   \<and> syncDependency [''proj''] ''@org/bar'' \<lparr>tree = example_project, trace = []\<rparr>
     = Inr \<lparr>tree = example_project,
            trace = [Validate [''proj'', ''Assets'', ''Plugins'', ''Packages'', ''@org'', ''bar'']]\<rparr>
   \<and> \<not> existsSync example_project [''proj'', ''node_modules'', ''foo'', ''LICENSE'']
   \<and> copyIfExistsSync [''proj'', ''node_modules'', ''foo'']
         [''proj'', ''Assets'', ''Plugins'', ''Packages'', ''foo''] ''LICENSE'' None
         \<lparr>tree = example_project, trace = []\<rparr>
     = Inr \<lparr>tree = example_project, trace = []\<rparr>"
proof -
  let ?s = "\<lparr>tree = example_project, trace = []\<rparr>"
  let ?lib = "\<lparr>cfg_version = Some ''3'', cfg_keywords = None, cfg_dependencies = None\<rparr>"
  let ?bar = "\<lparr>cfg_version = Some ''2.0'', cfg_keywords = Some [''unity'', ''unity3d-package''],
               cfg_dependencies = None\<rparr>"
  have p1: "path_join (path_join [''proj''] [''node_modules'', ''lib'']) [''package.json'']
      = [''proj'', ''node_modules'', ''lib'', ''package.json'']"
    by code_simp
  have p2: "path_join (path_join [''proj''] [''node_modules'', ''@org/bar'']) [''package.json'']
      = [''proj'', ''node_modules'', ''@org'', ''bar'', ''package.json'']"
    by code_simp
  have p3: "path_resolve (projectPackagesDir [''proj'']) ''@org/bar''
      = [''proj'', ''Assets'', ''Plugins'', ''Packages'', ''@org'', ''bar'']"
    by code_simp
  have p4: "path_join [''proj'', ''Assets'', ''Plugins'', ''Packages'', ''@org'', ''bar''] [''package.json'']
      = [''proj'', ''Assets'', ''Plugins'', ''Packages'', ''@org'', ''bar'', ''package.json'']"
    by code_simp
  have p5: "path_join [''proj'', ''node_modules'', ''foo''] [''LICENSE'']
      = [''proj'', ''node_modules'', ''foo'', ''LICENSE'']"
    by code_simp
  have r1: "readJsonSync example_project [''proj'', ''node_modules'', ''lib'', ''package.json''] = Inr ?lib"
    by code_simp
  have k1: "specialKeyword \<notin> set (keywords_of ?lib)"
    by code_simp
  have r2: "readJsonSync example_project [''proj'', ''node_modules'', ''@org'', ''bar'', ''package.json''] = Inr ?bar"
    by code_simp
  have k2: "specialKeyword \<in> set (keywords_of ?bar)"
    by code_simp
  have g: "guard_ok [''proj'', ''Assets'', ''Plugins'', ''Packages'', ''@org'', ''bar'']"
    by code_simp
  have r3: "readJsonSync example_project
      [''proj'', ''Assets'', ''Plugins'', ''Packages'', ''@org'', ''bar'', ''package.json''] = Inr ?bar"
    by code_simp
  have e: "\<not> existsSync example_project [''proj'', ''node_modules'', ''foo'', ''LICENSE'']"
    by code_simp
  have c1: "syncDependency [''proj''] ''lib'' ?s = Inr ?s"
    using soft_skips[of ?s "[''proj'']" "''lib''" ?lib] r1 k1 p1 by simp
  have c2: "syncDependency [''proj''] ''@org/bar'' ?s
      = Inr \<lparr>tree = example_project,
              trace = [Validate [''proj'', ''Assets'', ''Plugins'', ''Packages'', ''@org'', ''bar'']]\<rparr>"
    using soft_skips[of ?s "[''proj'']" "''@org/bar''" ?bar ?bar] r2 k2 g r3 p2 p3 p4 by simp
  have c3: "copyIfExistsSync [''proj'', ''node_modules'', ''foo'']
         [''proj'', ''Assets'', ''Plugins'', ''Packages'', ''foo''] ''LICENSE'' None ?s = Inr ?s"
    using soft_skips[of ?s _ _ _ _ "[''proj'', ''node_modules'', ''foo'']" "''LICENSE''"] e p5 by simp
  from r1 c1 r3 c2 e c3 show ?thesis by simp
qed

section \<open>The installed entries seen by phase 2\<close>

text \<open>
  C4. With the packages directory present in a well-formed tree, the list phase 2 works
  on is the concatenation, over the directory's entries in \<open>readdirSync\<close> order, of
  \<open>entries_of\<close>: nothing for a file, the name itself for a directory whose name does
  not start with \<open>@\<close>, and \<open>name/child\<close> for every subdirectory \<open>child\<close> of a
  directory whose name starts with \<open>@\<close>.
\<close>

theorem listing_is_installed_entries:
  "wf t \<Longrightarrow> node_at t (projectPackagesDir root) = Some (Dir kids) \<Longrightarrow>
   getProjectPackageListing root t = Inr (concat (map entries_of kids))"
  using listing_flatMap[of t "projectPackagesDir root" kids kids]
  by (simp add: getProjectPackageListing_def getDirectories_kids)

theorem listing_is_installed_entries_witness:
  "wf example_project
   \<and> node_at example_project (projectPackagesDir [''proj'']) = Some (Dir [
        (''foo'', Dir [(''package.json'', package_json ''1.0'' True),
                       (''stale.cs'', File (Text ''s''))]),
        (''@org'', Dir [(''bar'', Dir [(''package.json'', package_json ''2.0'' True)])]),
        (''old'', Dir []), (''old.meta'', File (Text ''m'')),
        (''@gone'', Dir [(''x'', Dir [])]), (''@gone.meta'', File (Text ''m''))])
   \<and> getProjectPackageListing [''proj''] example_project = Inr [''foo'', ''@org/bar'', ''old'', ''@gone/x'']"
proof -
  have w: "wf example_project"
    by code_simp
  have n: "node_at example_project (projectPackagesDir [''proj'']) = Some (Dir [
        (''foo'', Dir [(''package.json'', package_json ''1.0'' True),
                       (''stale.cs'', File (Text ''s''))]),
        (''@org'', Dir [(''bar'', Dir [(''package.json'', package_json ''2.0'' True)])]),
        (''old'', Dir []), (''old.meta'', File (Text ''m'')),
        (''@gone'', Dir [(''x'', Dir [])]), (''@gone.meta'', File (Text ''m''))])"
    by code_simp
  have "getProjectPackageListing [''proj''] example_project = Inr [''foo'', ''@org/bar'', ''old'', ''@gone/x'']"
    using listing_is_installed_entries[OF w n] by (simp add: startsWith_def)
  with w n show ?thesis by simp
qed

section \<open>The version gate of phase 1\<close>

text \<open>
  C2. Let the loop of phase 1 reach the declared dependency \<open>dependencyName\<close> in the
  state \<open>a\<close>, its own \<open>package.json\<close> listing the keyword (dependency names are taken
  with plain segments, so the guard passes). When the installed \<open>package.json\<close> can be
  read and carries the same \<open>version\<close> (equality of the two values, so \<open>1.0\<close> and \<open>1.0.0\<close>
  differ), the step for this dependency is the guard alone: phase 1 leaves the tree as
  it is, calls neither \<open>emptyDirSync\<close> nor \<open>copySync\<close>, and goes on with the dependencies
  that follow. When the installed \<open>package.json\<close> does not exist, or carries another
  \<open>version\<close>, the step is a full replace: after the guard, \<open>emptyDirSync\<close> on the
  destination, the copy of \<open>assets\<close> and the copies of the extra files that exist are
  the calls made, in this order; afterwards the destination holds under every name
  what \<open>assets\<close> holds under it (so nothing of what it held before), but for the extra
  files of the source, which it holds as they are, the dependency's \<open>package.json\<close>
  among them; and the replace returns when the destination is not a file, no file lies
  on the way to it and the source is regular.
\<close>

theorem version_gate:
  assumes wf: "wf (tree a)"
    and reach: "phase1 projectRootDir before s = Inr a"
    and name: "list_all plain (split_sep dependencyName)"
    and d: "dependencyDir = path_join projectRootDir [''node_modules'', dependencyName]"
    and t: "assetsTargetPath = path_resolve (projectPackagesDir projectRootDir) dependencyName"
    and cfg: "readJsonSync (tree a) (path_join dependencyDir [''package.json'']) = Inr dependencyConfig"
    and marked: "specialKeyword \<in> set (keywords_of dependencyConfig)"
    and v: "afterGuard = \<lparr>tree = tree a, trace = trace a @ [Validate assetsTargetPath]\<rparr>"
  shows "(readJsonSync (tree a) (path_join assetsTargetPath [''package.json'']) = Inr assetsTargetConfig
            \<and> cfg_version dependencyConfig = cfg_version assetsTargetConfig
          \<longrightarrow> syncDependency projectRootDir dependencyName a = Inr afterGuard
            \<and> phase1 projectRootDir (before @ [dependencyName]) s = Inr afterGuard
            \<and> phase1 projectRootDir (before @ dependencyName # after) s
                = phase1 projectRootDir after afterGuard)
       \<and> (\<not> existsSync (tree a) (path_join assetsTargetPath [''package.json''])
            \<or> (readJsonSync (tree a) (path_join assetsTargetPath [''package.json'']) = Inr assetsTargetConfig
                \<and> cfg_version dependencyConfig \<noteq> cfg_version assetsTargetConfig)
          \<longrightarrow> syncDependency projectRootDir dependencyName a
                = install dependencyDir assetsTargetPath afterGuard
            \<and> phase1 projectRootDir (before @ [dependencyName]) s
                = install dependencyDir assetsTargetPath afterGuard
            \<and> prefix (trace a @ [Validate assetsTargetPath, EmptyDir assetsTargetPath])
                 (trace_of (phase1 projectRootDir (before @ [dependencyName]) s))
            \<and> (free_way (Some (tree a)) assetsTargetPath
                  \<and> (\<forall>c. node_at (tree a) assetsTargetPath \<noteq> Some (File c))
                  \<and> regular_source (tree a) dependencyDir
                \<longrightarrow> (\<exists>b. phase1 projectRootDir (before @ [dependencyName]) s = Inr b))
            \<and> (\<forall>b. phase1 projectRootDir (before @ [dependencyName]) s = Inr b \<longrightarrow>
                  trace b = trace a @ [Validate assetsTargetPath, EmptyDir assetsTargetPath]
                    @ (if existsSync (tree a) (dependencyDir @ [''assets''])
                       then [Copy (dependencyDir @ [''assets'']) assetsTargetPath] else [])
                    @ concat (map (\<lambda>f. if existsSync (tree a) (dependencyDir @ [f])
                                        then [Copy (dependencyDir @ [f]) (assetsTargetPath @ [f])] else [])
                                [''package.json'', ''README.md'', ''LICENSE''])
                  \<and> (\<forall>k. k \<notin> set extraFiles \<or> \<not> existsSync (tree a) (dependencyDir @ [k]) \<longrightarrow>
                         node_at (tree b) (assetsTargetPath @ [k])
                           = node_at (tree a) (dependencyDir @ [''assets'', k]))
                  \<and> (\<forall>f c. f \<in> set extraFiles \<and> node_at (tree a) (dependencyDir @ [f]) = Some (File c) \<longrightarrow>
                         node_at (tree b) (assetsTargetPath @ [f]) = Some (File c))
                  \<and> node_at (tree b) (assetsTargetPath @ [''package.json''])
                      = Some (File (Json dependencyConfig))
                  \<and> phase1 projectRootDir (before @ dependencyName # after) s
                      = phase1 projectRootDir after b))"
    (is "(?same \<longrightarrow> ?skip) \<and> (?other \<longrightarrow> ?replace)")
proof (rule conjI; rule impI)
  have dd: "dependencyDir = projectRootDir @ ''node_modules'' # split_sep dependencyName"
    using d dependencyDir_eq[OF name] by simp
  have tt: "assetsTargetPath = projectPackagesDir projectRootDir @ split_sep dependencyName"
    using t plain_segments_resolve[OF name] by simp
  have sep: "separate dependencyDir assetsTargetPath"
    unfolding dd tt by (rule separate_dirs)
  have g: "guard_ok (path_resolve (projectPackagesDir projectRootDir) dependencyName)"
    using tt t guard_ok_inside[of projectRootDir "split_sep dependencyName"] by simp
  note step = phase1_snoc[OF reach, of dependencyName]
  {
    assume same: ?same
    from same have "syncDependency projectRootDir dependencyName a = Inr afterGuard"
      unfolding v t by (intro syncDependency_skip[OF cfg[unfolded d] marked g]) (simp_all add: t)
    with step phase1_reaches[of projectRootDir before dependencyName s afterGuard after]
    show ?skip by simp
  }
  {
    assume other: ?other
    have body: "syncDependency projectRootDir dependencyName a
        = install dependencyDir assetsTargetPath afterGuard"
      unfolding v t d
      by (rule syncDependency_replace[OF cfg[unfolded d] marked g, of assetsTargetConfig])
         (use other in \<open>simp add: t\<close>)
    with step have ph: "phase1 projectRootDir (before @ [dependencyName]) s
        = install dependencyDir assetsTargetPath afterGuard" by simp
    have pre: "prefix (trace a @ [Validate assetsTargetPath, EmptyDir assetsTargetPath])
        (trace_of (phase1 projectRootDir (before @ [dependencyName]) s))"
      using install_extends[of afterGuard assetsTargetPath dependencyDir] ph v by simp
    have wv: "wf (tree afterGuard)" using wf v by simp
    have ok: "\<exists>b. phase1 projectRootDir (before @ [dependencyName]) s = Inr b"
      if "free_way (Some (tree a)) assetsTargetPath
          \<and> (\<forall>c. node_at (tree a) assetsTargetPath \<noteq> Some (File c))
          \<and> regular_source (tree a) dependencyDir"
      using install_succeeds[OF wv sep, unfolded v] that ph v by simp
    have post: "trace b = trace a @ [Validate assetsTargetPath, EmptyDir assetsTargetPath]
              @ (if existsSync (tree a) (dependencyDir @ [''assets''])
                 then [Copy (dependencyDir @ [''assets'']) assetsTargetPath] else [])
              @ concat (map (\<lambda>f. if existsSync (tree a) (dependencyDir @ [f])
                                  then [Copy (dependencyDir @ [f]) (assetsTargetPath @ [f])] else [])
                          [''package.json'', ''README.md'', ''LICENSE''])
            \<and> (\<forall>k. k \<notin> set extraFiles \<or> \<not> existsSync (tree a) (dependencyDir @ [k]) \<longrightarrow>
                   node_at (tree b) (assetsTargetPath @ [k])
                     = node_at (tree a) (dependencyDir @ [''assets'', k]))
            \<and> (\<forall>f c. f \<in> set extraFiles \<and> node_at (tree a) (dependencyDir @ [f]) = Some (File c) \<longrightarrow>
                   node_at (tree b) (assetsTargetPath @ [f]) = Some (File c))
            \<and> node_at (tree b) (assetsTargetPath @ [''package.json''])
                = Some (File (Json dependencyConfig))
            \<and> phase1 projectRootDir (before @ dependencyName # after) s
                = phase1 projectRootDir after b"
      if run: "phase1 projectRootDir (before @ [dependencyName]) s = Inr b" for b
    proof (intro conjI allI impI)
      from run ph have inst: "install dependencyDir assetsTargetPath afterGuard = Inr b" by simp
      have tv: "tree afterGuard = tree a" "trace afterGuard = trace a @ [Validate assetsTargetPath]"
        using v by simp_all
      show "trace b = trace a @ [Validate assetsTargetPath, EmptyDir assetsTargetPath]
              @ (if existsSync (tree a) (dependencyDir @ [''assets''])
                 then [Copy (dependencyDir @ [''assets'']) assetsTargetPath] else [])
              @ concat (map (\<lambda>f. if existsSync (tree a) (dependencyDir @ [f])
                                  then [Copy (dependencyDir @ [f]) (assetsTargetPath @ [f])] else [])
                          [''package.json'', ''README.md'', ''LICENSE''])"
        using install_Inr(1)[OF inst sep wv]
        by (simp only: extra_copies_def extraFiles_def tv append_assoc append.simps)
      show "phase1 projectRootDir (before @ dependencyName # after) s = phase1 projectRootDir after b"
        using run by (rule phase1_reaches)
      have pj: "path_join dependencyDir [''package.json''] = dependencyDir @ [''package.json'']"
        by (rule path_join_plain) (simp add: plain_def)
      from readJson_node[OF cfg] have src: "node_at (tree afterGuard) (dependencyDir @ [''package.json''])
          = Some (File (Json dependencyConfig))" by (simp add: pj tv)
      have "''package.json'' \<in> set extraFiles" by (simp add: extraFiles_def)
      from install_content(2)[OF inst sep wv this src]
      show "node_at (tree b) (assetsTargetPath @ [''package.json'']) = Some (File (Json dependencyConfig))" .
    next
      fix k assume "k \<notin> set extraFiles \<or> \<not> existsSync (tree a) (dependencyDir @ [k])"
      then have k: "k \<notin> set extraFiles \<or> node_at (tree afterGuard) (dependencyDir @ [k]) = None"
        using v by (simp add: existsSync_def)
      from run ph have inst: "install dependencyDir assetsTargetPath afterGuard = Inr b" by simp
      from install_content(1)[OF inst sep wv k] v
      show "node_at (tree b) (assetsTargetPath @ [k]) = node_at (tree a) (dependencyDir @ [''assets'', k])"
        by simp
    next
      fix f c assume f: "f \<in> set extraFiles \<and> node_at (tree a) (dependencyDir @ [f]) = Some (File c)"
      from run ph have inst: "install dependencyDir assetsTargetPath afterGuard = Inr b" by simp
      from f v have "node_at (tree afterGuard) (dependencyDir @ [f]) = Some (File c)" by simp
      from install_content(2)[OF inst sep wv _ this] f
      show "node_at (tree b) (assetsTargetPath @ [f]) = Some (File c)" by simp
    qed
    show ?replace
      by (intro conjI) (rule body, rule ph, rule pre, intro impI, erule ok, intro allI impI, erule post)
  }
qed

theorem version_gate_witness:
  "wf gate_project
   \<and> phase1 [''p''] [] \<lparr>tree = gate_project, trace = []\<rparr> = Inr \<lparr>tree = gate_project, trace = []\<rparr>
   \<and> list_all plain (split_sep ''foo'')
   \<and> readJsonSync gate_project (path_join (path_join [''p''] [''node_modules'', ''foo'']) [''package.json''])
       = Inr \<lparr>cfg_version = Some ''1.0.0'', cfg_keywords = Some [''unity'', ''unity3d-package''],
              cfg_dependencies = None\<rparr>
   \<and> readJsonSync gate_project (path_join (path_resolve (projectPackagesDir [''p'']) ''foo'') [''package.json''])
       = Inr \<lparr>cfg_version = Some ''1.0'', cfg_keywords = Some [''unity'', ''unity3d-package''],
              cfg_dependencies = None\<rparr>
   \<and> Some ''1.0.0'' \<noteq> Some ''1.0''
   \<and> phase1 [''p''] [''foo''] \<lparr>tree = gate_project, trace = []\<rparr> = Inr gate_replaced
   \<and> node_at gate_project (path_resolve (projectPackagesDir [''p'']) ''foo'' @ [''stale.cs''])
       = Some (File (Text ''s''))
   \<and> node_at (tree gate_replaced) (path_resolve (projectPackagesDir [''p'']) ''foo'' @ [''stale.cs'']) = None
   \<and> node_at (tree gate_replaced) (path_resolve (projectPackagesDir [''p'']) ''foo'' @ [''a.cs''])
       = Some (File (Text ''x''))
   \<and> node_at (tree gate_replaced) (path_resolve (projectPackagesDir [''p'']) ''foo'' @ [''package.json''])
       = Some (package_json ''1.0.0'' True)
   \<and> list_all plain (split_sep ''@org/bar'')
   \<and> readJsonSync (tree gate_replaced)
        (path_join (path_join [''p''] [''node_modules'', ''@org/bar'']) [''package.json''])
       = Inr \<lparr>cfg_version = Some ''2.0'', cfg_keywords = Some [''unity'', ''unity3d-package''],
              cfg_dependencies = None\<rparr>
   \<and> readJsonSync (tree gate_replaced)
        (path_join (path_resolve (projectPackagesDir [''p'']) ''@org/bar'') [''package.json''])
       = Inr \<lparr>cfg_version = Some ''2.0'', cfg_keywords = Some [''unity'', ''unity3d-package''],
              cfg_dependencies = None\<rparr>
   \<and> phase1 [''p''] [''foo'', ''@org/bar''] \<lparr>tree = gate_project, trace = []\<rparr>
       = Inr \<lparr>tree = tree gate_replaced,
              trace = trace gate_replaced
                @ [Validate (path_resolve (projectPackagesDir [''p'']) ''@org/bar'')]\<rparr>
   \<and> node_at (tree gate_replaced) (path_resolve (projectPackagesDir [''p'']) ''@org/bar'' @ [''b.cs''])
       = Some (File (Text ''old''))"
proof -
  let ?s = "\<lparr>tree = gate_project, trace = []\<rparr>"
  let ?foo = "\<lparr>cfg_version = Some ''1.0.0'', cfg_keywords = Some [''unity'', ''unity3d-package''],
               cfg_dependencies = None\<rparr>"
  let ?old = "\<lparr>cfg_version = Some ''1.0'', cfg_keywords = Some [''unity'', ''unity3d-package''],
               cfg_dependencies = None\<rparr>"
  let ?bar = "\<lparr>cfg_version = Some ''2.0'', cfg_keywords = Some [''unity'', ''unity3d-package''],
               cfg_dependencies = None\<rparr>"
  let ?df = "path_join [''p''] [''node_modules'', ''foo'']"
  let ?tf = "path_resolve (projectPackagesDir [''p'']) ''foo''"
  let ?db = "path_join [''p''] [''node_modules'', ''@org/bar'']"
  let ?tb = "path_resolve (projectPackagesDir [''p'']) ''@org/bar''"
  have w: "wf (tree ?s)" by code_simp
  have r0: "phase1 [''p''] [] ?s = Inr ?s" by code_simp
  have nf: "list_all plain (split_sep ''foo'')" by code_simp
  have f1: "readJsonSync (tree ?s) (path_join ?df [''package.json'']) = Inr ?foo" by code_simp
  have f2: "specialKeyword \<in> set (keywords_of ?foo)" by code_simp
  have f4: "readJsonSync (tree ?s) (path_join ?tf [''package.json'']) = Inr ?old" by code_simp
  have f7: "Some ''1.0.0'' \<noteq> Some ''1.0''" by simp
  then have f8: "cfg_version ?foo \<noteq> cfg_version ?old" by simp
  have r1: "phase1 [''p''] ([] @ [''foo'']) ?s = Inr gate_replaced" by code_simp
  have st0: "node_at gate_project (?tf @ [''stale.cs'']) = Some (File (Text ''s''))" by code_simp
  have st: "''stale.cs'' \<notin> set extraFiles \<or> \<not> existsSync (tree ?s) (?df @ [''stale.cs''])" by code_simp
  have st': "node_at (tree ?s) (?df @ [''assets'', ''stale.cs'']) = None" by code_simp
  have ac: "''a.cs'' \<notin> set extraFiles \<or> \<not> existsSync (tree ?s) (?df @ [''a.cs''])" by code_simp
  have ac': "node_at (tree ?s) (?df @ [''assets'', ''a.cs'']) = Some (File (Text ''x''))" by code_simp
  have pk: "File (Json ?foo) = package_json ''1.0.0'' True" by code_simp
  note replace = version_gate[OF w r0 nf refl refl f1 f2 refl, of ?old, THEN conjunct2, rule_format,
      OF disjI2, OF conjI, OF f4 f8]
  note post = replace[THEN conjunct2, THEN conjunct2, THEN conjunct2, THEN conjunct2, rule_format, OF r1]
  from post[THEN conjunct2, THEN conjunct1, rule_format, OF st] st'
  have c1: "node_at (tree gate_replaced) (?tf @ [''stale.cs'']) = None" by (rule trans)
  from post[THEN conjunct2, THEN conjunct1, rule_format, OF ac] ac'
  have c2: "node_at (tree gate_replaced) (?tf @ [''a.cs'']) = Some (File (Text ''x''))" by (rule trans)
  from post[THEN conjunct2, THEN conjunct2, THEN conjunct2, THEN conjunct1] pk
  have c3: "node_at (tree gate_replaced) (?tf @ [''package.json'']) = Some (package_json ''1.0.0'' True)"
    by simp
  have wr: "wf (tree gate_replaced)" by code_simp
  have r1': "phase1 [''p''] [''foo''] ?s = Inr gate_replaced" by code_simp
  have nb: "list_all plain (split_sep ''@org/bar'')" by code_simp
  have b1: "readJsonSync (tree gate_replaced) (path_join ?db [''package.json'']) = Inr ?bar" by code_simp
  have b2: "specialKeyword \<in> set (keywords_of ?bar)" by code_simp
  have b4: "readJsonSync (tree gate_replaced) (path_join ?tb [''package.json'']) = Inr ?bar" by code_simp
  have keep: "node_at (tree gate_replaced) (?tb @ [''b.cs'']) = Some (File (Text ''old''))" by code_simp
  note skip = version_gate[OF wr r1' nb refl refl b1 b2 refl, of ?bar "[]", THEN conjunct1, rule_format,
      OF conjI, OF b4 refl, THEN conjunct2, THEN conjunct1]
  then have c4: "phase1 [''p''] [''foo'', ''@org/bar''] ?s
      = Inr \<lparr>tree = tree gate_replaced, trace = trace gate_replaced @ [Validate ?tb]\<rparr>" by simp
  have t: "tree ?s = gate_project" by simp
  from w[unfolded t] r0 nf f1[unfolded t] f4[unfolded t] f7 r1' st0 c1 c2 c3 nb b1 b4 c4 keep
  show ?thesis by (intro conjI)
qed

section \<open>The safety guard\<close>

text \<open>
  C1, as amended. In a run started on a well-formed tree, every path handed to
  \<open>emptyDirSync\<close>, \<open>removeSync\<close> or \<open>isEmptySync\<close> was handed to the guard earlier in the
  run and passed it. A path handed to \<open>unlinkSync\<close> is not itself handed to the guard:
  it is a path that passed the guard with \<open>.meta\<close> appended, and it contains the
  packages path as well. A guard that fails is the last call of the run, which then
  ends with the error naming the path; a run that completes has had no failing guard.
\<close>

theorem deletes_are_guarded:
  "wf (tree s) \<Longrightarrow> trace s = [] \<Longrightarrow> safe_outcome (sync root s)"
  by (rule kept_safe, rule kept_sync) (simp add: guarded_state_def passing_def)

theorem deletes_are_guarded_witness:
  "wf (tree \<lparr>tree = example_project, trace = []\<rparr>)
   \<and> trace \<lparr>tree = example_project, trace = []\<rparr> = []
   \<and> safe_outcome (sync [''proj''] \<lparr>tree = example_project, trace = []\<rparr>)"
proof -
  have w: "wf (tree \<lparr>tree = example_project, trace = []\<rparr>)"
    by code_simp
  have e: "trace \<lparr>tree = example_project, trace = []\<rparr> = []"
    by simp
  from deletes_are_guarded[OF w e, of "[''proj'']"] w e show ?thesis
    by (intro conjI)
qed

text \<open>
  C1 as worded asks for the guard on every path handed to a delete. In the run on the
  example project the sidecar \<open>old.meta\<close> is unlinked although the guard was only called
  on \<open>old\<close>.
\<close>

theorem sidecar_not_validated:
  "\<not> each_validated_from {} (trace_of (sync [''proj''] \<lparr>tree = example_project, trace = []\<rparr>))"
  by code_simp

section \<open>Removal of redundant packages\<close>

text \<open>
  C5. Let \<open>L\<close> be the list of installed entries of a well-formed tree. If phase 2
  completes, every entry of \<open>L\<close> that is not a key of \<open>dependencies\<close> has neither its
  directory nor its \<open>.meta\<close> sidecar left, every entry that is a key keeps its
  directory as it was and its \<open>.meta\<close> sidecar as it was (a file, or nothing, at the
  entry path plus \<open>.meta\<close>; a directory at that path is an installed entry of its
  own), and the installed entries afterwards are exactly those of \<open>L\<close> that are keys. Phase 2 does complete when no redundant entry has a directory in the
  place of its sidecar (\<open>unlinkSync\<close> refuses a directory).
\<close>

theorem redundant_packages_removed:
  assumes "wf (tree s)" and "getProjectPackageListing root (tree s) = Inr L"
  shows "((\<forall>e \<in> set L. e \<notin> set deps \<longrightarrow>
            (\<forall>k. node_at (tree s) (path_resolve (projectPackagesDir root) (e @ ''.meta'')) \<noteq> Some (Dir k)))
          \<longrightarrow> (\<exists>s'. phase2 root deps s = Inr s'))
       \<and> (\<forall>s'. phase2 root deps s = Inr s' \<longrightarrow>
            (\<forall>e \<in> set L.
                (e \<notin> set deps \<longrightarrow>
                   node_at (tree s') (path_resolve (projectPackagesDir root) e) = None
                   \<and> node_at (tree s') (path_resolve (projectPackagesDir root) (e @ ''.meta'')) = None)
              \<and> (e \<in> set deps \<longrightarrow>
                   node_at (tree s') (path_resolve (projectPackagesDir root) e)
                   = node_at (tree s) (path_resolve (projectPackagesDir root) e)
                   \<and> ((\<forall>k. node_at (tree s) (path_resolve (projectPackagesDir root) (e @ ''.meta''))
                              \<noteq> Some (Dir k)) \<longrightarrow>
                        node_at (tree s') (path_resolve (projectPackagesDir root) (e @ ''.meta''))
                        = node_at (tree s) (path_resolve (projectPackagesDir root) (e @ ''.meta'')))))
            \<and> (\<exists>L'. getProjectPackageListing root (tree s') = Inr L' \<and> set L' = set L \<inter> set deps))"
proof (intro conjI impI allI ballI)
  let ?R = "filter (\<lambda>packageName. packageName \<notin> set deps) L"
  have pn: "\<forall>x \<in> set L. package_name x"
    using listing_package_names[OF assms] by simp
  {
    assume side: "\<forall>e \<in> set L. e \<notin> set deps \<longrightarrow>
            (\<forall>k. node_at (tree s) (path_resolve (projectPackagesDir root) (e @ ''.meta'')) \<noteq> Some (Dir k))"
    have "\<forall>x \<in> set ?R. \<forall>k. node_at (tree s) (projectPackagesDir root @ meta_segments x) \<noteq> Some (Dir k)"
      using side pn by (auto simp: meta_resolve package_name_segments)
    with pn have "\<exists>s'. forEach (removeRedundant root) ?R s = Inr s'"
      by (intro remove_loop_succeeds) simp_all
    then show "\<exists>s'. phase2 root deps s = Inr s'"
      using assms(2) by (simp add: phase2_unfold)
  }
  fix s' assume run: "phase2 root deps s = Inr s'"
  with assms(2) have loop: "forEach (removeRedundant root) ?R s = Inr s'"
    by (simp add: phase2_unfold)
  from pn have pr: "\<forall>x \<in> set ?R. package_name x" by simp
  show "\<exists>L'. getProjectPackageListing root (tree s') = Inr L' \<and> set L' = set L \<inter> set deps"
    using assms run by (rule phase2_listing_after)
  fix e assume e: "e \<in> set L"
  with pn have pe: "package_name e" by simp
  then have pl: "list_all plain (split_sep e)" by (rule package_name_segments)
  {
    assume "e \<notin> set deps"
    with e have "e \<in> set ?R" by simp
    from remove_loop_gone[OF loop pr this, of "[]"]
    show "node_at (tree s') (path_resolve (projectPackagesDir root) e) = None"
      and "node_at (tree s') (path_resolve (projectPackagesDir root) (e @ ''.meta'')) = None"
      using pl by (simp_all add: plain_segments_resolve meta_resolve)
  }
  {
    assume "e \<in> set deps"
    then have notin: "e \<notin> set ?R" by simp
    from listing_mem_tree[OF assms, of e] e obtain k
      where k: "node_at (tree s) (projectPackagesDir root @ split_sep e) = Some (Dir k)" by blast
    from remove_loop_keeps[OF loop pr pe notin k] k
    show "node_at (tree s') (path_resolve (projectPackagesDir root) e)
        = node_at (tree s) (path_resolve (projectPackagesDir root) e)"
      using pl by (simp add: plain_segments_resolve)
  }
  {
    assume "e \<in> set deps"
      and nodir: "\<forall>k. node_at (tree s) (path_resolve (projectPackagesDir root) (e @ ''.meta''))
                              \<noteq> Some (Dir k)"
    then have notin: "e \<notin> set ?R" by simp
    have dirs: "\<forall>x \<in> set ?R. \<exists>k. node_at (tree s) (projectPackagesDir root @ split_sep x) = Some (Dir k)"
      using listing_mem_tree[OF assms] by simp
    from nodir pl have "\<forall>k. node_at (tree s) (projectPackagesDir root @ meta_segments e) \<noteq> Some (Dir k)"
      by (simp add: meta_resolve)
    from remove_loop_keeps_sidecar[OF loop pr dirs pe notin this]
    show "node_at (tree s') (path_resolve (projectPackagesDir root) (e @ ''.meta''))
        = node_at (tree s) (path_resolve (projectPackagesDir root) (e @ ''.meta''))"
      using pl by (simp add: meta_resolve)
  }
qed

theorem redundant_packages_removed_witness:
  "wf (tree \<lparr>tree = abc_project, trace = []\<rparr>)
   \<and> getProjectPackageListing [''p''] (tree \<lparr>tree = abc_project, trace = []\<rparr>) = Inr [''A'', ''B'', ''C'']
   \<and> node_at abc_project (path_resolve (projectPackagesDir [''p'']) ''B.meta'') = Some (File (Text ''m''))
   \<and> (\<exists>s'. phase2 [''p''] [''A'', ''C''] \<lparr>tree = abc_project, trace = []\<rparr> = Inr s')
   \<and> phase2 [''p''] [''A'', ''C''] \<lparr>tree = abc_project, trace = []\<rparr> = Inr abc_after
   \<and> node_at (tree abc_after) (path_resolve (projectPackagesDir [''p'']) ''B'') = None
   \<and> node_at (tree abc_after) (path_resolve (projectPackagesDir [''p'']) ''B.meta'') = None
   \<and> node_at (tree abc_after) (path_resolve (projectPackagesDir [''p'']) ''A'')
       = Some (Dir [(''a.cs'', File (Text ''a''))])
   \<and> node_at (tree abc_after) (path_resolve (projectPackagesDir [''p'']) ''C'') = Some (Dir [])
   \<and> node_at (tree abc_after) (path_resolve (projectPackagesDir [''p'']) ''A.meta'')
       = Some (File (Text ''m''))
   \<and> node_at (tree abc_after) (path_resolve (projectPackagesDir [''p'']) ''C.meta'') = None
   \<and> (\<exists>L'. getProjectPackageListing [''p''] (tree abc_after) = Inr L' \<and> set L' = {''A'', ''C''})"
proof -
  let ?s = "\<lparr>tree = abc_project, trace = []\<rparr>"
  have w: "wf (tree ?s)"
    by code_simp
  have l: "getProjectPackageListing [''p''] (tree ?s) = Inr [''A'', ''B'', ''C'']"
    by code_simp
  have b: "node_at abc_project (path_resolve (projectPackagesDir [''p'']) ''B.meta'') = Some (File (Text ''m''))"
    by code_simp
  have a: "node_at abc_project (path_resolve (projectPackagesDir [''p'']) ''A'')
      = Some (Dir [(''a.cs'', File (Text ''a''))])"
    by code_simp
  have c: "node_at abc_project (path_resolve (projectPackagesDir [''p'']) ''C'') = Some (Dir [])"
    by code_simp
  have am: "node_at abc_project (path_resolve (projectPackagesDir [''p'']) ''A.meta'')
      = Some (File (Text ''m''))"
    by code_simp
  have cm: "node_at abc_project (path_resolve (projectPackagesDir [''p'']) ''C.meta'') = None"
    by code_simp
  have run: "phase2 [''p''] [''A'', ''C''] ?s = Inr abc_after"
    by code_simp
  note inst = redundant_packages_removed[OF w l, of "[''A'', ''C'']"]
  have side: "\<forall>e \<in> set [''A'', ''B'', ''C'']. e \<notin> set [''A'', ''C''] \<longrightarrow>
      (\<forall>k. node_at (tree ?s) (path_resolve (projectPackagesDir [''p'']) (e @ ''.meta'')) \<noteq> Some (Dir k))"
    using b by simp
  from inst side have ex: "\<exists>s'. phase2 [''p''] [''A'', ''C''] ?s = Inr s'"
    by blast
  from inst run have all: "\<forall>e \<in> set [''A'', ''B'', ''C''].
                (e \<notin> set [''A'', ''C''] \<longrightarrow>
                   node_at (tree abc_after) (path_resolve (projectPackagesDir [''p'']) e) = None
                   \<and> node_at (tree abc_after) (path_resolve (projectPackagesDir [''p'']) (e @ ''.meta'')) = None)
              \<and> (e \<in> set [''A'', ''C''] \<longrightarrow>
                   node_at (tree abc_after) (path_resolve (projectPackagesDir [''p'']) e)
                   = node_at (tree ?s) (path_resolve (projectPackagesDir [''p'']) e)
                   \<and> ((\<forall>k. node_at (tree ?s) (path_resolve (projectPackagesDir [''p'']) (e @ ''.meta''))
                              \<noteq> Some (Dir k)) \<longrightarrow>
                        node_at (tree abc_after) (path_resolve (projectPackagesDir [''p'']) (e @ ''.meta''))
                        = node_at (tree ?s) (path_resolve (projectPackagesDir [''p'']) (e @ ''.meta''))))"
    and after: "\<exists>L'. getProjectPackageListing [''p''] (tree abc_after) = Inr L'
                     \<and> set L' = set [''A'', ''B'', ''C''] \<inter> set [''A'', ''C'']"
    by blast+
  have "set [''A'', ''B'', ''C''] \<inter> set [''A'', ''C''] = {''A'', ''C''}"
    by auto
  with all after a c am cm have post: "node_at (tree abc_after) (path_resolve (projectPackagesDir [''p'']) ''B'') = None
       \<and> node_at (tree abc_after) (path_resolve (projectPackagesDir [''p'']) ''B.meta'') = None
       \<and> node_at (tree abc_after) (path_resolve (projectPackagesDir [''p'']) ''A'')
           = Some (Dir [(''a.cs'', File (Text ''a''))])
       \<and> node_at (tree abc_after) (path_resolve (projectPackagesDir [''p'']) ''C'') = Some (Dir [])
       \<and> node_at (tree abc_after) (path_resolve (projectPackagesDir [''p'']) ''A.meta'')
           = Some (File (Text ''m''))
       \<and> node_at (tree abc_after) (path_resolve (projectPackagesDir [''p'']) ''C.meta'') = None
       \<and> (\<exists>L'. getProjectPackageListing [''p''] (tree abc_after) = Inr L' \<and> set L' = {''A'', ''C''})"
    by simp
  from w l b ex run post show ?thesis by blast
qed

section \<open>Scoped and unscoped entries\<close>

text \<open>
  C6, as amended. An installed entry in the directory \<open>child\<close> of a scope directory
  \<open>scope\<close> (a name starting with \<open>@\<close>) survives phase 2, unchanged, exactly when the keys
  of \<open>dependencies\<close> contain the string \<open>scope/child\<close>, the scope written with its \<open>@\<close>;
  otherwise it is removed. Removing a scoped entry leaves the directory of every
  unscoped name as it was, and removing an unscoped entry leaves the directory of every
  scoped name as it was.
\<close>

theorem scoped_entries_by_full_name:
  assumes "wf (tree s)" and "plain scope" and "plain child" and "startsWith scope ''@''"
  shows "(\<forall>s' k. phase2 root deps s = Inr s'
            \<and> node_at (tree s) (path_resolve (projectPackagesDir root) (scope @ ''/'' @ child)) = Some (Dir k)
          \<longrightarrow> (if scope @ ''/'' @ child \<in> set deps
               then node_at (tree s') (path_resolve (projectPackagesDir root) (scope @ ''/'' @ child)) = Some (Dir k)
               else node_at (tree s') (path_resolve (projectPackagesDir root) (scope @ ''/'' @ child)) = None))
       \<and> (\<forall>x a b. plain x \<and> \<not> startsWith x ''@'' \<longrightarrow>
            (removeRedundant root (scope @ ''/'' @ child) a = Inr b
               \<longrightarrow> node_at (tree b) (path_resolve (projectPackagesDir root) x)
                   = node_at (tree a) (path_resolve (projectPackagesDir root) x))
          \<and> (removeRedundant root x a = Inr b
               \<longrightarrow> node_at (tree b) (path_resolve (projectPackagesDir root) (scope @ ''/'' @ child))
                   = node_at (tree a) (path_resolve (projectPackagesDir root) (scope @ ''/'' @ child))))"
proof (intro conjI allI impI)
  let ?e = "scope @ ''/'' @ child"
  from assms have pe: "package_name ?e" by (intro scoped_package_name)
  from assms have se: "split_sep ?e = [scope, child]" by (simp add: split_sep_scoped)
  then have me: "meta_segments ?e = [scope, child @ ''.meta'']" by (simp add: meta_segments_def)
  have re: "path_resolve (projectPackagesDir root) ?e = projectPackagesDir root @ split_sep ?e"
    using pe by (intro plain_segments_resolve package_name_segments)
  {
    fix s' k
    assume h: "phase2 root deps s = Inr s'
        \<and> node_at (tree s) (path_resolve (projectPackagesDir root) ?e) = Some (Dir k)"
    then obtain L where L: "getProjectPackageListing root (tree s) = Inr L"
      using phase2_Inr by blast
    let ?R = "filter (\<lambda>packageName. packageName \<notin> set deps) L"
    from h L have loop: "forEach (removeRedundant root) ?R s = Inr s'"
      by (simp add: phase2_unfold)
    have pr: "\<forall>x \<in> set ?R. package_name x"
      using listing_package_names[OF assms(1) L] by simp
    from h re have k: "node_at (tree s) (projectPackagesDir root @ split_sep ?e) = Some (Dir k)" by simp
    with pe have inL: "?e \<in> set L" using listing_mem_tree[OF assms(1) L, of ?e] by blast
    show "if ?e \<in> set deps
          then node_at (tree s') (path_resolve (projectPackagesDir root) ?e) = Some (Dir k)
          else node_at (tree s') (path_resolve (projectPackagesDir root) ?e) = None"
    proof (cases "?e \<in> set deps")
      case True
      then have "?e \<notin> set ?R" by simp
      from remove_loop_keeps[OF loop pr pe this k] True re show ?thesis by simp
    next
      case False
      with inL have "?e \<in> set ?R" by simp
      from remove_loop_gone[OF loop pr this, of "[]"] False re show ?thesis by simp
    qed
  }
  fix x a b
  assume x: "plain x \<and> \<not> startsWith x ''@''"
  then have px: "package_name x" by (intro flat_package_name) simp_all
  from x have sx: "split_sep x = [x]" by (simp add: plain_single)
  then have mx: "meta_segments x = [x @ ''.meta'']" by (simp add: meta_segments_def)
  from x assms(4) have ne: "?e \<noteq> x" using se sx by auto
  {
    assume "removeRedundant root ?e a = Inr b"
    then show "node_at (tree b) (path_resolve (projectPackagesDir root) x)
        = node_at (tree a) (path_resolve (projectPackagesDir root) x)"
      using pe px ne by (rule removeRedundant_frame) (use me sx in simp)
  }
  {
    assume "removeRedundant root x a = Inr b"
    then show "node_at (tree b) (path_resolve (projectPackagesDir root) ?e)
        = node_at (tree a) (path_resolve (projectPackagesDir root) ?e)"
      using px pe ne[symmetric] by (rule removeRedundant_frame) (use mx se in simp)
  }
qed

theorem scoped_entries_by_full_name_witness:
  "wf (tree \<lparr>tree = scoped_project, trace = []\<rparr>)
   \<and> plain ''@org'' \<and> plain ''bar'' \<and> plain ''baz'' \<and> startsWith ''@org'' ''@''
   \<and> plain ''tool'' \<and> \<not> startsWith ''tool'' ''@''
   \<and> phase2 [''p''] [''@org/bar''] \<lparr>tree = scoped_project, trace = []\<rparr> = Inr scoped_after
   \<and> node_at scoped_project (path_resolve (projectPackagesDir [''p'']) (''@org'' @ ''/'' @ ''bar'')) = Some (Dir [])
   \<and> node_at scoped_project (path_resolve (projectPackagesDir [''p'']) (''@org'' @ ''/'' @ ''baz'')) = Some (Dir [])
   \<and> ''@org'' @ ''/'' @ ''bar'' \<in> set [''@org/bar'']
   \<and> node_at (tree scoped_after) (path_resolve (projectPackagesDir [''p'']) (''@org'' @ ''/'' @ ''bar'')) = Some (Dir [])
   \<and> ''@org'' @ ''/'' @ ''baz'' \<notin> set [''@org/bar'']
   \<and> node_at (tree scoped_after) (path_resolve (projectPackagesDir [''p'']) (''@org'' @ ''/'' @ ''baz'')) = None
   \<and> removeRedundant [''p''] (''@org'' @ ''/'' @ ''baz'') \<lparr>tree = scoped_project, trace = []\<rparr>
       = Inr scoped_without_baz
   \<and> node_at (tree scoped_without_baz) (path_resolve (projectPackagesDir [''p'']) ''tool'')
       = node_at scoped_project (path_resolve (projectPackagesDir [''p'']) ''tool'')
   \<and> removeRedundant [''p''] ''tool'' \<lparr>tree = scoped_project, trace = []\<rparr> = Inr scoped_without_tool
   \<and> node_at (tree scoped_without_tool) (path_resolve (projectPackagesDir [''p'']) (''@org'' @ ''/'' @ ''baz''))
       = node_at scoped_project (path_resolve (projectPackagesDir [''p'']) (''@org'' @ ''/'' @ ''baz''))"
proof -
  let ?s = "\<lparr>tree = scoped_project, trace = []\<rparr>"
  have w: "wf (tree ?s)"
    by code_simp
  have p: "plain ''@org''" "plain ''bar''" "plain ''baz''" "startsWith ''@org'' ''@''"
    "plain ''tool''" "\<not> startsWith ''tool'' ''@''"
    by code_simp+
  have run: "phase2 [''p''] [''@org/bar''] ?s = Inr scoped_after"
    by code_simp
  have nbar: "node_at (tree ?s) (path_resolve (projectPackagesDir [''p'']) (''@org'' @ ''/'' @ ''bar'')) = Some (Dir [])"
    by code_simp
  have nbaz: "node_at (tree ?s) (path_resolve (projectPackagesDir [''p'']) (''@org'' @ ''/'' @ ''baz'')) = Some (Dir [])"
    by code_simp
  have dbar: "''@org'' @ ''/'' @ ''bar'' \<in> set [''@org/bar'']"
    by simp
  have dbaz: "''@org'' @ ''/'' @ ''baz'' \<notin> set [''@org/bar'']"
    by simp
  have r1: "removeRedundant [''p''] (''@org'' @ ''/'' @ ''baz'') ?s = Inr scoped_without_baz"
    by code_simp
  have r2: "removeRedundant [''p''] ''tool'' ?s = Inr scoped_without_tool"
    by code_simp
  note bar = scoped_entries_by_full_name[OF w p(1) p(2) p(4), of "[''p'']" "[''@org/bar'']", THEN conjunct1, rule_format, of scoped_after "[]"]
  note baz = scoped_entries_by_full_name[OF w p(1) p(3) p(4), of "[''p'']" "[''@org/bar'']", THEN conjunct1, rule_format, of scoped_after "[]"]
  note step = scoped_entries_by_full_name[OF w p(1) p(3) p(4), of "[''p'']" "[''@org/bar'']", THEN conjunct2, rule_format, of "''tool''"]
  have c1: "node_at (tree scoped_after) (path_resolve (projectPackagesDir [''p'']) (''@org'' @ ''/'' @ ''bar'')) = Some (Dir [])"
    using bar run nbar dbar by (simp only: if_True simp_thms)
  have c2: "node_at (tree scoped_after) (path_resolve (projectPackagesDir [''p'']) (''@org'' @ ''/'' @ ''baz'')) = None"
    using baz run nbaz dbaz by (simp only: if_False simp_thms)
  have c3: "node_at (tree scoped_without_baz) (path_resolve (projectPackagesDir [''p'']) ''tool'')
       = node_at (tree ?s) (path_resolve (projectPackagesDir [''p'']) ''tool'')"
    using step[THEN conjunct1] p(5,6) r1 by blast
  have c4: "node_at (tree scoped_without_tool) (path_resolve (projectPackagesDir [''p'']) (''@org'' @ ''/'' @ ''baz''))
       = node_at (tree ?s) (path_resolve (projectPackagesDir [''p'']) (''@org'' @ ''/'' @ ''baz''))"
    using step[THEN conjunct2] p(5,6) r2 by blast
  have t: "tree ?s = scoped_project"
    by simp
  from w p run nbar[unfolded t] nbaz[unfolded t] dbar c1 dbaz c2 r1 c3[unfolded t] r2 c4[unfolded t]
  show ?thesis
    by (intro conjI)
qed

text \<open>
  C6 as worded names the declared string \<open>org/bar\<close> for the entry installed at \<open>@org/bar\<close>.
  With the key \<open>@org/bar\<close> and no key \<open>org/bar\<close> the entry is kept; with the key
  \<open>org/bar\<close> it is removed.
\<close>

theorem scope_without_marker_not_matched:
  "''org/bar'' \<notin> set [''@org/bar'']
   \<and> onode_at (final_tree (phase2 [''p''] [''@org/bar''] \<lparr>tree = scoped_project, trace = []\<rparr>))
        [''p'', ''Assets'', ''Plugins'', ''Packages'', ''@org'', ''bar''] = Some (Dir [])
   \<and> ''org/bar'' \<in> set [''org/bar'', ''tool'']
   \<and> final_tree (phase2 [''p''] [''org/bar'', ''tool''] \<lparr>tree = scoped_project, trace = []\<rparr>)
       = Some (packages_tree [(''@org'', Dir []), (''tool'', Dir [])])"
  by code_simp

section \<open>Pruning of empty scope directories\<close>

text \<open>
  C7. Let the packages directory of a well-formed tree hold the entries \<open>kids\<close>. If
  phase 3 completes, the paths it tests for emptiness are exactly the directories of
  \<open>kids\<close> whose names start with \<open>@\<close>, in their order; afterwards an entry of the packages
  directory is gone if it is such a directory and empty, or the sidecar of one, and is
  as before otherwise. So an empty scope directory is deleted with its sidecar, and a
  scope directory that still has an entry stays as it was, as does its sidecar file.
  Phase 3 does complete when no scope directory has a directory in the place of its
  sidecar.
\<close>

theorem empty_scopes_pruned:
  assumes "wf (tree s)" and "node_at (tree s) (projectPackagesDir root) = Some (Dir kids)"
  shows "((\<forall>x \<in> set (filter (\<lambda>d. startsWith d ''@'') (subdirectories kids)).
              \<forall>k. map_of kids (x @ ''.meta'') \<noteq> Some (Dir k))
          \<longrightarrow> (\<exists>s'. phase3 root s = Inr s'))
       \<and> (\<forall>s'. phase3 root s = Inr s' \<longrightarrow>
             emptiness_checks (trace s')
               = emptiness_checks (trace s)
                 @ map (path_resolve (projectPackagesDir root))
                     (filter (\<lambda>d. startsWith d ''@'') (subdirectories kids))
           \<and> (\<forall>name. node_at (tree s') (projectPackagesDir root @ [name])
                       = (if pruned kids name then None else map_of kids name))
           \<and> (\<forall>name. startsWith name ''@'' \<and> map_of kids name = Some (Dir []) \<longrightarrow>
                  node_at (tree s') (path_resolve (projectPackagesDir root) name) = None
                \<and> node_at (tree s') (path_resolve (projectPackagesDir root) (name @ ''.meta'')) = None)
           \<and> (\<forall>name k ks. startsWith name ''@'' \<and> map_of kids name = Some (Dir (k # ks)) \<longrightarrow>
                  node_at (tree s') (path_resolve (projectPackagesDir root) name) = Some (Dir (k # ks))
                \<and> (\<forall>c. map_of kids (name @ ''.meta'') = Some (File c) \<longrightarrow>
                       node_at (tree s') (path_resolve (projectPackagesDir root) (name @ ''.meta''))
                       = Some (File c))))"
proof (intro conjI impI allI)
  let ?pk = "projectPackagesDir root"
  let ?xs = "filter (\<lambda>d. startsWith d ''@'') (subdirectories kids)"
  from wf_node_at[OF assms] have wk: "wf (Dir kids)" by simp
  note top = node_at_child[OF assms(2)]
  note sc = scopes_list_facts[OF wk]
  {
    assume "\<forall>x \<in> set ?xs. \<forall>k. map_of kids (x @ ''.meta'') \<noteq> Some (Dir k)"
    then have "\<forall>x \<in> set ?xs. \<forall>k. node_at (tree s) (?pk @ [x @ ''.meta'']) \<noteq> Some (Dir k)"
      by (simp add: top)
    from prune_loop_succeeds[OF sc(2) assms(2) this]
    show "\<exists>s'. phase3 root s = Inr s'"
      using assms by (simp add: phase3_unfold)
  }
  fix s' assume run: "phase3 root s = Inr s'"
  with assms have loop: "forEach (pruneScope root) ?xs s = Inr s'" by (simp add: phase3_unfold)
  have "map (path_resolve ?pk) ?xs = map (\<lambda>x. ?pk @ [x]) ?xs"
    using sc(2) by (intro map_cong) (simp_all add: scope_paths)
  with prune_loop_facts(4)[OF loop sc(2)]
  show "emptiness_checks (trace s') = emptiness_checks (trace s) @ map (path_resolve ?pk) ?xs"
    by simp
  note after = phase3_top_level[OF assms run]
  show "node_at (tree s') (?pk @ [name]) = (if pruned kids name then None else map_of kids name)" for name
    by (rule after)
  {
    fix name assume h: "startsWith name ''@'' \<and> map_of kids name = Some (Dir [])"
    with wk have mem: "(name, Dir []) \<in> set kids" by (simp add: map_of_kids del: wf.simps)
    with wf_child[OF wk] have pn: "plain name" by blast
    from mem h have "pruned kids name" "pruned kids (name @ ''.meta'')"
      unfolding pruned_def list_ex_iff by force+
    with after[of name] after[of "name @ ''.meta''"]
    show "node_at (tree s') (path_resolve ?pk name) = None"
      and "node_at (tree s') (path_resolve ?pk (name @ ''.meta'')) = None"
      by (simp_all add: scope_paths[OF pn])
  }
  {
    fix name k ks assume h: "startsWith name ''@'' \<and> map_of kids name = Some (Dir (k # ks))"
    with wk have mem: "(name, Dir (k # ks)) \<in> set kids" by (simp add: map_of_kids del: wf.simps)
    with wf_child[OF wk] have pn: "plain name" by blast
    from h have "node_at (tree s) (?pk @ [name]) = Some (Dir (k # ks))" by (simp add: top)
    from prune_loop_keeps[OF loop sc(2) this]
    show "node_at (tree s') (path_resolve ?pk name) = Some (Dir (k # ks))"
      by (simp add: scope_paths[OF pn])
    fix c assume c: "map_of kids (name @ ''.meta'') = Some (File c)"
    have "\<not> pruned kids (name @ ''.meta'')"
    proof
      assume "pruned kids (name @ ''.meta'')"
      then obtain m where m: "(m, Dir []) \<in> set kids" "name @ ''.meta'' = m \<or> name @ ''.meta'' = m @ ''.meta''"
        by (auto simp: pruned_def list_ex_iff)
      from m(1) wk have look: "map_of kids m = Some (Dir [])" by (simp add: map_of_kids del: wf.simps)
      from m(2) show False
      proof
        assume "name @ ''.meta'' = m"
        with look c show False by simp
      next
        assume "name @ ''.meta'' = m @ ''.meta''"
        then have "name = m" by simp
        with look h show False by simp
      qed
    qed
    with after[of "name @ ''.meta''"] c
    show "node_at (tree s') (path_resolve ?pk (name @ ''.meta'')) = Some (File c)"
      by (simp add: scope_paths[OF pn])
  }
qed

theorem empty_scopes_pruned_witness:
  "wf (tree \<lparr>tree = packages_tree scopes_kids, trace = []\<rparr>)
   \<and> node_at (tree \<lparr>tree = packages_tree scopes_kids, trace = []\<rparr>) (projectPackagesDir [''p''])
       = Some (Dir scopes_kids)
   \<and> filter (\<lambda>d. startsWith d ''@'') (subdirectories scopes_kids) = [''@gone'', ''@org'']
   \<and> map_of scopes_kids ''@gone.meta'' = Some (File (Text ''m''))
   \<and> map_of scopes_kids ''@org.meta'' = Some (File (Text ''m''))
   \<and> (\<exists>s'. phase3 [''p''] \<lparr>tree = packages_tree scopes_kids, trace = []\<rparr> = Inr s')
   \<and> phase3 [''p''] \<lparr>tree = packages_tree scopes_kids, trace = []\<rparr> = Inr scopes_after
   \<and> emptiness_checks (trace scopes_after)
       = [[''p'', ''Assets'', ''Plugins'', ''Packages'', ''@gone''],
          [''p'', ''Assets'', ''Plugins'', ''Packages'', ''@org'']]
   \<and> startsWith ''@gone'' ''@'' \<and> map_of scopes_kids ''@gone'' = Some (Dir [])
   \<and> node_at (tree scopes_after) (path_resolve (projectPackagesDir [''p'']) ''@gone'') = None
   \<and> node_at (tree scopes_after) (path_resolve (projectPackagesDir [''p'']) (''@gone'' @ ''.meta'')) = None
   \<and> startsWith ''@org'' ''@'' \<and> map_of scopes_kids ''@org'' = Some (Dir [(''bar'', Dir [])])
   \<and> node_at (tree scopes_after) (path_resolve (projectPackagesDir [''p'']) ''@org'')
       = Some (Dir [(''bar'', Dir [])])
   \<and> node_at (tree scopes_after) (path_resolve (projectPackagesDir [''p'']) (''@org'' @ ''.meta''))
       = Some (File (Text ''m''))"
proof -
  let ?s = "\<lparr>tree = packages_tree scopes_kids, trace = []\<rparr>"
  have w: "wf (tree ?s)"
    by code_simp
  have n: "node_at (tree ?s) (projectPackagesDir [''p'']) = Some (Dir scopes_kids)"
    by code_simp
  have sc: "filter (\<lambda>d. startsWith d ''@'') (subdirectories scopes_kids) = [''@gone'', ''@org'']"
    by code_simp
  have m1: "map_of scopes_kids ''@gone.meta'' = Some (File (Text ''m''))"
    by code_simp
  have m2: "map_of scopes_kids ''@org.meta'' = Some (File (Text ''m''))"
    by code_simp
  have run: "phase3 [''p''] ?s = Inr scopes_after"
    by code_simp
  have g: "startsWith ''@gone'' ''@''" "map_of scopes_kids ''@gone'' = Some (Dir [])"
    by code_simp+
  have o: "startsWith ''@org'' ''@''" "map_of scopes_kids ''@org'' = Some (Dir [(''bar'', Dir [])])"
    by code_simp+
  have paths: "map (path_resolve (projectPackagesDir [''p''])) [''@gone'', ''@org'']
      = [[''p'', ''Assets'', ''Plugins'', ''Packages'', ''@gone''],
         [''p'', ''Assets'', ''Plugins'', ''Packages'', ''@org'']]"
    by code_simp
  note inst = empty_scopes_pruned[OF w n]
  have side: "\<forall>x \<in> set (filter (\<lambda>d. startsWith d ''@'') (subdirectories scopes_kids)).
      \<forall>k. map_of scopes_kids (x @ ''.meta'') \<noteq> Some (Dir k)"
    unfolding sc using m1 m2 by simp
  from inst side have ex: "\<exists>s'. phase3 [''p''] ?s = Inr s'"
    by blast
  note post = inst[THEN conjunct2, rule_format, OF run]
  from post[THEN conjunct1] have c1: "emptiness_checks (trace scopes_after)
       = [[''p'', ''Assets'', ''Plugins'', ''Packages'', ''@gone''],
          [''p'', ''Assets'', ''Plugins'', ''Packages'', ''@org'']]"
    unfolding sc paths by simp
  from post[THEN conjunct2, THEN conjunct2, THEN conjunct1] g
  have c2: "node_at (tree scopes_after) (path_resolve (projectPackagesDir [''p'']) ''@gone'') = None"
    and c3: "node_at (tree scopes_after) (path_resolve (projectPackagesDir [''p'']) (''@gone'' @ ''.meta'')) = None"
    by blast+
  from post[THEN conjunct2, THEN conjunct2, THEN conjunct2] o
  have c4: "node_at (tree scopes_after) (path_resolve (projectPackagesDir [''p'']) ''@org'')
       = Some (Dir [(''bar'', Dir [])])"
    by blast
  have m2': "map_of scopes_kids (''@org'' @ ''.meta'') = Some (File (Text ''m''))"
    using m2 by simp
  from post[THEN conjunct2, THEN conjunct2, THEN conjunct2] o m2'
  have c5: "node_at (tree scopes_after) (path_resolve (projectPackagesDir [''p'']) (''@org'' @ ''.meta''))
       = Some (File (Text ''m''))"
    by blast
  from w n sc m1 m2 ex run c1 g c2 c3 o c4 c5 show ?thesis
    by (intro conjI)
qed

section \<open>The steps of an installation\<close>

text \<open>
  C3. When phase 1 installs the dependency \<open>dependencyName\<close> (lines 71 to 77, the
  function \<open>install\<close>, called with the source and destination paths that lines 40 and 55
  compute), the calls it makes are, in this order: \<open>emptyDirSync\<close> on the destination
  entry directory; one copy of the source's \<open>assets\<close> directory onto the destination
  entry directory, when \<open>assets\<close> exists; and then, for \<open>package.json\<close>, \<open>README.md\<close> and
  \<open>LICENSE\<close> in this order, one copy of the file from the source root to the same name
  in the destination entry directory, for those that exist at the source only.
  Afterwards an entry \<open>k\<close> of the destination that is not an extra file, or is an extra
  file missing at the source, is what \<open>assets\<close> holds under \<open>k\<close>: whatever the
  destination held before is gone, and a missing extra file is not created. An extra
  file of the source is found at the destination. The installation does not fail when
  the destination is not a file, no file lies on the way to it, and the source is
  regular (whether or not an extra file is missing). Dependency names are taken with
  plain segments (no empty segment, \<open>.\<close> or \<open>..\<close>).
\<close>

theorem install_steps_in_order:
  assumes wf: "wf (tree s)" and name: "list_all plain (split_sep dependencyName)"
    and d: "dependencyDir = path_join projectRootDir [''node_modules'', dependencyName]"
    and t: "assetsTargetPath = path_resolve (projectPackagesDir projectRootDir) dependencyName"
  shows "(free_way (Some (tree s)) assetsTargetPath
           \<and> (\<forall>c. node_at (tree s) assetsTargetPath \<noteq> Some (File c))
           \<and> regular_source (tree s) dependencyDir
          \<longrightarrow> (\<exists>s'. install dependencyDir assetsTargetPath s = Inr s'))
       \<and> (\<forall>s'. install dependencyDir assetsTargetPath s = Inr s' \<longrightarrow>
            trace s' = trace s @ [EmptyDir assetsTargetPath]
              @ (if existsSync (tree s) (dependencyDir @ [''assets''])
                 then [Copy (dependencyDir @ [''assets'']) assetsTargetPath] else [])
              @ concat (map (\<lambda>f. if existsSync (tree s) (dependencyDir @ [f])
                                  then [Copy (dependencyDir @ [f]) (assetsTargetPath @ [f])] else [])
                          [''package.json'', ''README.md'', ''LICENSE''])
            \<and> (\<forall>k. k \<notin> set extraFiles \<or> \<not> existsSync (tree s) (dependencyDir @ [k]) \<longrightarrow>
                   node_at (tree s') (assetsTargetPath @ [k])
                     = node_at (tree s) (dependencyDir @ [''assets'', k]))
            \<and> (\<forall>f c. f \<in> set extraFiles \<and> node_at (tree s) (dependencyDir @ [f]) = Some (File c) \<longrightarrow>
                   node_at (tree s') (assetsTargetPath @ [f]) = Some (File c)))"
proof -
  have dd: "dependencyDir = projectRootDir @ ''node_modules'' # split_sep dependencyName"
    using d dependencyDir_eq[OF name] by simp
  have tt: "assetsTargetPath = projectPackagesDir projectRootDir @ split_sep dependencyName"
    using t plain_segments_resolve[OF name] by simp
  have sep: "separate dependencyDir assetsTargetPath"
    unfolding dd tt by (rule separate_dirs)
  have ok: "\<exists>s'. install dependencyDir assetsTargetPath s = Inr s'"
    if "free_way (Some (tree s)) assetsTargetPath"
      "\<forall>c. node_at (tree s) assetsTargetPath \<noteq> Some (File c)"
      "regular_source (tree s) dependencyDir"
    using install_succeeds[OF wf sep that] .
  have after: "trace s' = trace s @ [EmptyDir assetsTargetPath]
              @ (if existsSync (tree s) (dependencyDir @ [''assets''])
                 then [Copy (dependencyDir @ [''assets'']) assetsTargetPath] else [])
              @ concat (map (\<lambda>f. if existsSync (tree s) (dependencyDir @ [f])
                                  then [Copy (dependencyDir @ [f]) (assetsTargetPath @ [f])] else [])
                          [''package.json'', ''README.md'', ''LICENSE''])
            \<and> (\<forall>k. k \<notin> set extraFiles \<or> \<not> existsSync (tree s) (dependencyDir @ [k]) \<longrightarrow>
                   node_at (tree s') (assetsTargetPath @ [k])
                     = node_at (tree s) (dependencyDir @ [''assets'', k]))
            \<and> (\<forall>f c. f \<in> set extraFiles \<and> node_at (tree s) (dependencyDir @ [f]) = Some (File c) \<longrightarrow>
                   node_at (tree s') (assetsTargetPath @ [f]) = Some (File c))"
    if inst: "install dependencyDir assetsTargetPath s = Inr s'" for s'
  proof (intro conjI allI impI)
    show "trace s' = trace s @ [EmptyDir assetsTargetPath]
              @ (if existsSync (tree s) (dependencyDir @ [''assets''])
                 then [Copy (dependencyDir @ [''assets'']) assetsTargetPath] else [])
              @ concat (map (\<lambda>f. if existsSync (tree s) (dependencyDir @ [f])
                                  then [Copy (dependencyDir @ [f]) (assetsTargetPath @ [f])] else [])
                          [''package.json'', ''README.md'', ''LICENSE''])"
      using install_Inr(1)[OF inst sep wf] by (simp only: extra_copies_def extraFiles_def)
  next
    fix k assume "k \<notin> set extraFiles \<or> \<not> existsSync (tree s) (dependencyDir @ [k])"
    then have "k \<notin> set extraFiles \<or> node_at (tree s) (dependencyDir @ [k]) = None"
      by (simp add: existsSync_def)
    then show "node_at (tree s') (assetsTargetPath @ [k])
        = node_at (tree s) (dependencyDir @ [''assets'', k])"
      by (rule install_content(1)[OF inst sep wf])
  next
    fix f c assume "f \<in> set extraFiles \<and> node_at (tree s) (dependencyDir @ [f]) = Some (File c)"
    then show "node_at (tree s') (assetsTargetPath @ [f]) = Some (File c)"
      using install_content(2)[OF inst sep wf] by blast
  qed
  have first: "free_way (Some (tree s)) assetsTargetPath
           \<and> (\<forall>c. node_at (tree s) assetsTargetPath \<noteq> Some (File c))
           \<and> regular_source (tree s) dependencyDir
          \<longrightarrow> (\<exists>s'. install dependencyDir assetsTargetPath s = Inr s')"
    using ok by (intro impI) (elim conjE)
  show ?thesis
    by (rule conjI[OF first]) (intro allI impI, rule after)
qed

theorem install_steps_in_order_witness:
  "wf (tree \<lparr>tree = project_with foo_source [(''foo'', Dir [(''stale.cs'', File (Text ''s''))])],
              trace = []\<rparr>)
   \<and> list_all plain (split_sep ''foo'')
   \<and> free_way (Some (project_with foo_source [(''foo'', Dir [(''stale.cs'', File (Text ''s''))])]))
        (path_resolve (projectPackagesDir [''p'']) ''foo'')
   \<and> node_at (project_with foo_source [(''foo'', Dir [(''stale.cs'', File (Text ''s''))])])
        (path_resolve (projectPackagesDir [''p'']) ''foo'') = Some (Dir [(''stale.cs'', File (Text ''s''))])
   \<and> regular_source (project_with foo_source [(''foo'', Dir [(''stale.cs'', File (Text ''s''))])])
        (path_join [''p''] [''node_modules'', ''foo''])
   \<and> install (path_join [''p''] [''node_modules'', ''foo''])
        (path_resolve (projectPackagesDir [''p'']) ''foo'')
        \<lparr>tree = project_with foo_source [(''foo'', Dir [(''stale.cs'', File (Text ''s''))])],
         trace = []\<rparr> = Inr foo_installed
   \<and> node_at (tree foo_installed) (path_resolve (projectPackagesDir [''p'']) ''foo'' @ [''LICENSE'']) = None
   \<and> node_at (tree foo_installed) (path_resolve (projectPackagesDir [''p'']) ''foo'' @ [''stale.cs'']) = None
   \<and> node_at (tree foo_installed) (path_resolve (projectPackagesDir [''p'']) ''foo'' @ [''README.md''])
        = Some (File (Text ''r''))"
proof -
  let ?t = "project_with foo_source [(''foo'', Dir [(''stale.cs'', File (Text ''s''))])]"
  let ?s = "\<lparr>tree = ?t, trace = []\<rparr>"
  let ?d = "path_join [''p''] [''node_modules'', ''foo'']"
  let ?p = "path_resolve (projectPackagesDir [''p'']) ''foo''"
  have w: "wf (tree ?s)" by code_simp
  have n: "list_all plain (split_sep ''foo'')" by code_simp
  have fw: "free_way (Some ?t) ?p" by code_simp
  have reg: "regular_source ?t ?d" by code_simp
  have dst: "node_at ?t ?p = Some (Dir [(''stale.cs'', File (Text ''s''))])" by code_simp
  have run: "install ?d ?p ?s = Inr foo_installed" by code_simp
  have lic: "''LICENSE'' \<notin> set extraFiles \<or> \<not> existsSync (tree ?s) (?d @ [''LICENSE''])" by code_simp
  have stale: "''stale.cs'' \<notin> set extraFiles \<or> \<not> existsSync (tree ?s) (?d @ [''stale.cs''])" by code_simp
  have none: "node_at (tree ?s) (?d @ [''assets'', ''LICENSE'']) = None"
    "node_at (tree ?s) (?d @ [''assets'', ''stale.cs'']) = None" by code_simp+
  have readme: "''README.md'' \<in> set extraFiles \<and> node_at (tree ?s) (?d @ [''README.md'']) = Some (File (Text ''r''))"
    by code_simp
  note inst = install_steps_in_order[OF w n refl refl, of "[''p'']", THEN conjunct2, rule_format, OF run]
  note missing = inst[THEN conjunct2, THEN conjunct1, rule_format]
  from missing[OF lic] none(1)
  have a: "node_at (tree foo_installed) (?p @ [''LICENSE'']) = None" by (rule trans)
  from missing[OF stale] none(2)
  have b: "node_at (tree foo_installed) (?p @ [''stale.cs'']) = None" by (rule trans)
  from inst[THEN conjunct2, THEN conjunct2, rule_format, OF readme]
  have c: "node_at (tree foo_installed) (?p @ [''README.md'']) = Some (File (Text ''r''))" .
  from w n fw dst reg run a b c show ?thesis by (intro conjI)
qed

section \<open>A destination that does not exist\<close>

text \<open>
  C10. Let the loop of phase 1 reach, in the state \<open>a\<close>, a declared dependency
  \<open>dependencyName\<close> whose \<open>package.json\<close> carries the marker keyword and whose
  destination entry directory does not exist, with no file on the way to it
  (dependency names are taken with plain segments). Then the guard passes, the version
  gate is not consulted, and phase 1 goes on as a fresh installation: \<open>emptyDirSync\<close>
  succeeds on the destination, which is an empty directory afterwards, every directory
  above it existing as a directory. With a regular source phase 1 returns normally
  from this dependency, the destination entry directory and the directories above it
  exist, the dependency's \<open>package.json\<close> is found at the destination, and the loop
  goes on with the dependencies that follow.
\<close>

theorem missing_destination_is_fresh_install:
  assumes wf: "wf (tree a)"
    and reach: "phase1 projectRootDir before s = Inr a"
    and name: "list_all plain (split_sep dependencyName)"
    and d: "dependencyDir = path_join projectRootDir [''node_modules'', dependencyName]"
    and t: "assetsTargetPath = path_resolve (projectPackagesDir projectRootDir) dependencyName"
    and cfg: "readJsonSync (tree a) (path_join dependencyDir [''package.json'']) = Inr dependencyConfig"
    and marked: "specialKeyword \<in> set (keywords_of dependencyConfig)"
    and missing: "node_at (tree a) assetsTargetPath = None"
    and fw: "free_way (Some (tree a)) assetsTargetPath"
    and v: "afterGuard = \<lparr>tree = tree a, trace = trace a @ [Validate assetsTargetPath]\<rparr>"
  shows "\<exists>s1. emptyDirSync assetsTargetPath afterGuard = Inr s1
          \<and> node_at (tree s1) assetsTargetPath = Some (Dir [])
          \<and> (\<forall>q r. assetsTargetPath = q @ r \<longrightarrow> (\<exists>ks. node_at (tree s1) q = Some (Dir ks)))
          \<and> syncDependency projectRootDir dependencyName a
              = install dependencyDir assetsTargetPath afterGuard
          \<and> phase1 projectRootDir (before @ [dependencyName]) s
              = install dependencyDir assetsTargetPath afterGuard
          \<and> prefix (trace a @ [Validate assetsTargetPath, EmptyDir assetsTargetPath])
               (trace_of (phase1 projectRootDir (before @ [dependencyName]) s))
          \<and> (regular_source (tree a) dependencyDir \<longrightarrow>
                (\<exists>b. phase1 projectRootDir (before @ [dependencyName]) s = Inr b
                   \<and> syncDependency projectRootDir dependencyName a = Inr b
                   \<and> node_at (tree b) (assetsTargetPath @ [''package.json''])
                       = Some (File (Json dependencyConfig))
                   \<and> (\<forall>q r. assetsTargetPath = q @ r \<longrightarrow> (\<exists>ks. node_at (tree b) q = Some (Dir ks)))
                   \<and> phase1 projectRootDir (before @ dependencyName # after) s
                       = phase1 projectRootDir after b))"
proof -
  have tv: "tree afterGuard = tree a" "trace afterGuard = trace a @ [Validate assetsTargetPath]"
    using v by simp_all
  have dd: "dependencyDir = projectRootDir @ ''node_modules'' # split_sep dependencyName"
    using d dependencyDir_eq[OF name] by simp
  have tt: "assetsTargetPath = projectPackagesDir projectRootDir @ split_sep dependencyName"
    using t plain_segments_resolve[OF name] by simp
  have sep: "separate dependencyDir assetsTargetPath"
    unfolding dd tt by (rule separate_dirs)
  have fresh: "syncDependency projectRootDir dependencyName a = install dependencyDir assetsTargetPath afterGuard"
    unfolding d t v by (rule syncDependency_fresh[OF name cfg[unfolded d] marked missing[unfolded t]])
  with phase1_snoc[OF reach, of dependencyName]
  have ph: "phase1 projectRootDir (before @ [dependencyName]) s
      = install dependencyDir assetsTargetPath afterGuard" by simp
  have pre: "prefix (trace a @ [Validate assetsTargetPath, EmptyDir assetsTargetPath])
      (trace_of (phase1 projectRootDir (before @ [dependencyName]) s))"
    using install_extends[of afterGuard assetsTargetPath dependencyDir] ph tv by simp
  have fwv: "free_way (Some (tree afterGuard)) assetsTargetPath" using fw tv by simp
  have nfv: "\<forall>c. node_at (tree afterGuard) assetsTargetPath \<noteq> Some (File c)" using missing tv by simp
  from emptyDirSync_succeeds[OF fwv nfv] obtain s1
    where s1: "emptyDirSync assetsTargetPath afterGuard = Inr s1" by blast
  note e = emptyDirSync_Inr[OF s1]
  have above: "\<exists>ks. node_at (tree s1) q = Some (Dir ks)" if "assetsTargetPath = q @ r" for q r
  proof (cases "r = []")
    case True
    with that e(1) show ?thesis by simp
  next
    case False
    from e(1) that have "node_at (tree s1) (q @ r) = Some (Dir [])" by simp
    from node_at_prefix_dir[OF this False] show ?thesis .
  qed
  have whole: "\<exists>b. phase1 projectRootDir (before @ [dependencyName]) s = Inr b
                   \<and> syncDependency projectRootDir dependencyName a = Inr b
                   \<and> node_at (tree b) (assetsTargetPath @ [''package.json''])
                       = Some (File (Json dependencyConfig))
                   \<and> (\<forall>q r. assetsTargetPath = q @ r \<longrightarrow> (\<exists>ks. node_at (tree b) q = Some (Dir ks)))
                   \<and> phase1 projectRootDir (before @ dependencyName # after) s
                       = phase1 projectRootDir after b"
    if reg: "regular_source (tree a) dependencyDir"
  proof -
    have wv: "wf (tree afterGuard)" using wf tv by simp
    have rv: "regular_source (tree afterGuard) dependencyDir" using reg tv by simp
    from install_succeeds[OF wv sep fwv nfv rv] obtain b
      where b: "install dependencyDir assetsTargetPath afterGuard = Inr b" by blast
    have pj: "path_join dependencyDir [''package.json''] = dependencyDir @ [''package.json'']"
      by (rule path_join_plain) (simp add: plain_def)
    from readJson_node[OF cfg] have src: "node_at (tree afterGuard) (dependencyDir @ [''package.json''])
        = Some (File (Json dependencyConfig))" by (simp add: pj tv)
    have "''package.json'' \<in> set extraFiles" by (simp add: extraFiles_def)
    from install_content(2)[OF b sep wv this src]
    have at: "node_at (tree b) (assetsTargetPath @ [''package.json'']) = Some (File (Json dependencyConfig))" .
    have up: "\<exists>ks. node_at (tree b) q = Some (Dir ks)" if "assetsTargetPath = q @ r" for q r
    proof -
      from at that have "node_at (tree b) (q @ (r @ [''package.json''])) = Some (File (Json dependencyConfig))"
        by simp
      from node_at_prefix_dir[OF this] show ?thesis by simp
    qed
    from b ph have run: "phase1 projectRootDir (before @ [dependencyName]) s = Inr b" by simp
    from phase1_reaches[OF run, of after] run b fresh at up show ?thesis by auto
  qed
  from s1 e(1) above fresh ph pre whole show ?thesis by blast
qed

theorem missing_destination_is_fresh_install_witness:
  "wf (tree \<lparr>tree = bare_project, trace = []\<rparr>)
   \<and> phase1 [''p''] [] \<lparr>tree = bare_project, trace = []\<rparr> = Inr \<lparr>tree = bare_project, trace = []\<rparr>
   \<and> list_all plain (split_sep ''@org/bar'')
   \<and> readJsonSync bare_project (path_join (path_join [''p''] [''node_modules'', ''@org/bar'']) [''package.json''])
       = Inr \<lparr>cfg_version = Some ''2.0'', cfg_keywords = Some [''unity'', ''unity3d-package''],
              cfg_dependencies = None\<rparr>
   \<and> specialKeyword \<in> set [''unity'', ''unity3d-package'']
   \<and> node_at bare_project (path_resolve (projectPackagesDir [''p'']) ''@org/bar'') = None
   \<and> node_at bare_project [''p'', ''Assets''] = None
   \<and> free_way (Some bare_project) (path_resolve (projectPackagesDir [''p'']) ''@org/bar'')
   \<and> regular_source bare_project (path_join [''p''] [''node_modules'', ''@org/bar''])
   \<and> (\<exists>s1. emptyDirSync (path_resolve (projectPackagesDir [''p'']) ''@org/bar'')
              \<lparr>tree = bare_project,
               trace = [Validate (path_resolve (projectPackagesDir [''p'']) ''@org/bar'')]\<rparr> = Inr s1
          \<and> node_at (tree s1) (path_resolve (projectPackagesDir [''p'']) ''@org/bar'') = Some (Dir []))
   \<and> syncDependency [''p''] ''@org/bar'' \<lparr>tree = bare_project, trace = []\<rparr> = Inr bar_installed
   \<and> phase1 [''p''] [''@org/bar''] \<lparr>tree = bare_project, trace = []\<rparr> = Inr bar_installed
   \<and> node_at (tree bar_installed) (path_resolve (projectPackagesDir [''p'']) ''@org/bar'' @ [''package.json''])
       = Some (package_json ''2.0'' True)
   \<and> node_at (tree bar_installed) [''p'', ''Assets'', ''Plugins'', ''Packages'', ''@org'']
       = Some (Dir [(''bar'', Dir [(''package.json'', package_json ''2.0'' True),
                                  (''LICENSE'', File (Text ''l''))])])"
proof -
  let ?s = "\<lparr>tree = bare_project, trace = []\<rparr>"
  let ?c = "\<lparr>cfg_version = Some ''2.0'', cfg_keywords = Some [''unity'', ''unity3d-package''],
              cfg_dependencies = None\<rparr>"
  let ?d = "path_join [''p''] [''node_modules'', ''@org/bar'']"
  let ?p = "path_resolve (projectPackagesDir [''p'']) ''@org/bar''"
  have w: "wf (tree ?s)" by code_simp
  have r0: "phase1 [''p''] [] ?s = Inr ?s" by code_simp
  have n: "list_all plain (split_sep ''@org/bar'')" by code_simp
  have c: "readJsonSync (tree ?s) (path_join ?d [''package.json'']) = Inr ?c" by code_simp
  have k: "specialKeyword \<in> set (keywords_of ?c)" by code_simp
  have k': "specialKeyword \<in> set [''unity'', ''unity3d-package'']" by code_simp
  have m: "node_at (tree ?s) ?p = None" by code_simp
  have m': "node_at bare_project [''p'', ''Assets''] = None" by code_simp
  have f: "free_way (Some (tree ?s)) ?p" by code_simp
  have reg: "regular_source (tree ?s) ?d" by code_simp
  have run: "syncDependency [''p''] ''@org/bar'' ?s = Inr bar_installed" by code_simp
  have run1: "phase1 [''p''] [''@org/bar''] ?s = Inr bar_installed" by code_simp
  have pk: "File (Json ?c) = package_json ''2.0'' True" by code_simp
  have up: "node_at (tree bar_installed) [''p'', ''Assets'', ''Plugins'', ''Packages'', ''@org'']
       = Some (Dir [(''bar'', Dir [(''package.json'', package_json ''2.0'' True),
                                  (''LICENSE'', File (Text ''l''))])])" by code_simp
  note inst = missing_destination_is_fresh_install[OF w r0 n refl refl c k m f refl, of "[]"]
  from inst obtain s1 where "emptyDirSync ?p \<lparr>tree = tree ?s, trace = trace ?s @ [Validate ?p]\<rparr> = Inr s1"
    "node_at (tree s1) ?p = Some (Dir [])" by blast
  then have e: "\<exists>s1. emptyDirSync ?p \<lparr>tree = bare_project, trace = [Validate ?p]\<rparr> = Inr s1
      \<and> node_at (tree s1) ?p = Some (Dir [])" by auto
  from inst reg obtain b where "phase1 [''p''] ([] @ [''@org/bar'']) ?s = Inr b"
    "node_at (tree b) (?p @ [''package.json'']) = Some (File (Json ?c))" by blast
  with run1 pk have pj: "node_at (tree bar_installed) (?p @ [''package.json'']) = Some (package_json ''2.0'' True)"
    by simp
  from w r0 n c[simplified] k' m[simplified] m' f[simplified] reg[simplified] e run run1 pj up
  show ?thesis by (intro conjI)
qed

section \<open>A second run\<close>



end
